theory Spec2Isabelle
  imports Main "HOL-Library.Sublist"
begin

section \<open>Go strings and the library functions the program calls\<close>

text \<open>
  A Go string is a sequence of bytes; it is modelled as \<open>string\<close> (a list of 8-bit
  characters). The library functions are modelled for a Unix target (path separator
  \<open>/\<close>), following the documented behaviour of the Go standard library.
\<close>

definition byte :: "char \<Rightarrow> nat" where
  "byte c = of_char c"

definition isAscii :: "char \<Rightarrow> bool" where
  "isAscii c = (byte c < 128)"

definition isUpper :: "char \<Rightarrow> bool" where
  "isUpper c = (65 \<le> byte c \<and> byte c \<le> 90)"

definition asciiLower :: "char \<Rightarrow> char" where
  "asciiLower c = (if isUpper c then char_of (byte c + 32) else c)"

definition isCont :: "char \<Rightarrow> bool" where
  \<comment> \<open>a UTF-8 continuation byte, 0x80..0xBF\<close>
  "isCont c = (128 \<le> byte c \<and> byte c \<le> 191)"

definition seqLen :: "nat \<Rightarrow> nat" where
  \<comment> \<open>length of the UTF-8 sequence a lead byte announces; 0 for a byte that cannot lead\<close>
  "seqLen b = (if b < 128 then 1
               else if 194 \<le> b \<and> b \<le> 223 then 2
               else if 224 \<le> b \<and> b \<le> 239 then 3
               else if 240 \<le> b \<and> b \<le> 244 then 4
               else 0)"

definition secondOk :: "nat \<Rightarrow> char \<Rightarrow> bool" where
  \<comment> \<open>the range utf8 accepts for the second byte, which depends on the lead byte\<close>
  "secondOk b c = (if b = 224 then 160 \<le> byte c \<and> byte c \<le> 191
                   else if b = 237 then 128 \<le> byte c \<and> byte c \<le> 159
                   else if b = 240 then 144 \<le> byte c \<and> byte c \<le> 191
                   else if b = 244 then 128 \<le> byte c \<and> byte c \<le> 143
                   else isCont c)"

fun runeWidth :: "string \<Rightarrow> nat" where
  \<comment> \<open>the width utf8.DecodeRuneInString reports: an invalid or truncated sequence is one
      byte wide (and decodes to U+FFFD)\<close>
  "runeWidth [] = 0"
| "runeWidth (c # cs) =
     (let n = seqLen (byte c) in
      if n = 2 then (case cs of c1 # _ \<Rightarrow> if isCont c1 then 2 else 1 | _ \<Rightarrow> 1)
      else if n = 3 then
        (case cs of c1 # c2 # _ \<Rightarrow> if secondOk (byte c) c1 \<and> isCont c2 then 3 else 1 | _ \<Rightarrow> 1)
      else if n = 4 then
        (case cs of c1 # c2 # c3 # _ \<Rightarrow>
           if secondOk (byte c) c1 \<and> isCont c2 \<and> isCont c3 then 4 else 1 | _ \<Rightarrow> 1)
      else 1)"

definition lowerRune :: "string \<Rightarrow> string" where
  \<comment> \<open>unicode.ToLower on one non-ASCII rune, given and returned in UTF-8. Exactly two
      non-ASCII code points have an ASCII lower case: U+0130 (to i) and U+212A (to k).
      An invalid byte becomes U+FFFD. Every other rune is mapped to a non-ASCII rune by
      the Unicode tables; the model leaves its bytes as they are.\<close>
  "lowerRune r =
     (if length r = 1 then [CHR 0xEF, CHR 0xBF, CHR 0xBD]
      else if r = [CHR 0xC4, CHR 0xB0] then ''i''
      else if r = [CHR 0xE2, CHR 0x84, CHR 0xAA] then ''k''
      else r)"

function mapLower :: "string \<Rightarrow> string" where
  \<comment> \<open>strings.Map(unicode.ToLower, s)\<close>
  "mapLower [] = []"
| "mapLower (c # cs) =
     (if isAscii c then asciiLower c # mapLower cs
      else lowerRune (take (runeWidth (c # cs)) (c # cs))
           @ mapLower (drop (runeWidth (c # cs) - 1) cs))"
  by pat_completeness auto
termination
  by (relation "measure length") auto

definition strings_ToLower :: "string \<Rightarrow> string" where
  \<comment> \<open>strings.ToLower: a byte loop for an ASCII-only string, strings.Map otherwise\<close>
  "strings_ToLower s = (if list_all isAscii s then map asciiLower s else mapLower s)"

definition filepath_Base :: "string \<Rightarrow> string" where
  \<comment> \<open>filepath.Base: empty path gives ".", trailing slashes are stripped, the part after
      the last slash is returned, a path of slashes only gives "/"\<close>
  "filepath_Base path =
     (if path = [] then ''.''
      else let p = rev (dropWhile (\<lambda>c. c = CHR ''/'') (rev path));
               q = rev (takeWhile (\<lambda>c. c \<noteq> CHR ''/'') (rev p))
           in if q = [] then ''/'' else q)"

fun extScan :: "string \<Rightarrow> string \<Rightarrow> string" where
  \<comment> \<open>the loop of filepath.Ext, walking the reversed path from its last byte\<close>
  "extScan [] acc = []"
| "extScan (c # cs) acc =
     (if c = CHR ''/'' then []
      else if c = CHR ''.'' then c # acc
      else extScan cs (c # acc))"

definition filepath_Ext :: "string \<Rightarrow> string" where
  "filepath_Ext path = extScan (rev path) []"

definition isLowerAlnum :: "char \<Rightarrow> bool" where
  \<comment> \<open>the character class [a-z0-9]\<close>
  "isLowerAlnum c = ((97 \<le> byte c \<and> byte c \<le> 122) \<or> (48 \<le> byte c \<and> byte c \<le> 57))"

function replaceNonAlnum :: "string \<Rightarrow> string" where
  \<comment> \<open>regexp [^a-z0-9], ReplaceAllString with "_": every rune outside the class,
      an invalid byte included, is replaced by one underscore\<close>
  "replaceNonAlnum [] = []"
| "replaceNonAlnum (c # cs) =
     (if isLowerAlnum c then c # replaceNonAlnum cs
      else CHR ''_'' # replaceNonAlnum (drop (runeWidth (c # cs) - 1) cs))"
  by pat_completeness auto
termination
  by (relation "measure length") auto

function collapseUnderscores :: "string \<Rightarrow> string" where
  \<comment> \<open>regexp _+, ReplaceAllString with "_": every maximal run becomes one underscore\<close>
  "collapseUnderscores [] = []"
| "collapseUnderscores (c # cs) =
     (if c = CHR ''_'' then c # collapseUnderscores (dropWhile (\<lambda>x. x = CHR ''_'') cs)
      else c # collapseUnderscores cs)"
  by pat_completeness auto
termination
  by (relation "measure length") (auto simp: length_dropWhile_le less_Suc_eq_le)

definition strings_Trim :: "string \<Rightarrow> string \<Rightarrow> string" where
  \<comment> \<open>strings.Trim with an ASCII cutset\<close>
  "strings_Trim s cutset =
     rev (dropWhile (\<lambda>c. c \<in> set cutset) (rev (dropWhile (\<lambda>c. c \<in> set cutset) s)))"

definition occursAt :: "string \<Rightarrow> string \<Rightarrow> bool" where
  \<comment> \<open>a non-empty old occurs at the start of s\<close>
  "occursAt old s = (old \<noteq> [] \<and> take (length old) s = old)"

function removeAll :: "string \<Rightarrow> string \<Rightarrow> string" where
  \<comment> \<open>strings.ReplaceAll(s, old, ""): the non-overlapping occurrences of old are
      removed, scanning from the left. With an empty old the empty replacement is
      inserted between the runes, which gives s back.\<close>
  "removeAll old [] = []"
| "removeAll old (c # cs) =
     (if occursAt old (c # cs)
      then removeAll old (drop (length old) (c # cs))
      else c # removeAll old cs)"
  by pat_completeness auto
termination
  by (relation "measure (\<lambda>(old, s). length s)") (auto simp: occursAt_def)

fun strings_Contains :: "string \<Rightarrow> string \<Rightarrow> bool" where
  "strings_Contains [] substr = (substr = [])"
| "strings_Contains (c # cs) substr =
     (take (length substr) (c # cs) = substr \<or> strings_Contains cs substr)"

section \<open>The program\<close>

definition getFilename :: "string \<Rightarrow> string" where
  "getFilename path = filepath_Base path"

definition removeSubstring :: "string \<Rightarrow> string \<Rightarrow> string" where
  "removeSubstring input toRemove = removeAll toRemove input"

definition getFileExtension :: "string \<Rightarrow> string" where
  "getFileExtension path = filepath_Ext path"

definition invalidSubstrings :: "string list" where
  "invalidSubstrings = [''_pdf'']"

definition sanitizeStem :: "string \<Rightarrow> string" where
  \<comment> \<open>urlToFilename up to the loop over invalidSubstrings: the value of safe just before
      the extension is checked\<close>
  "sanitizeStem rawURL =
     (let lower = strings_ToLower rawURL;
          lower = getFilename lower;
          safe = replaceNonAlnum lower;
          safe = collapseUnderscores safe;
          safe = strings_Trim safe ''_''
      in foldl removeSubstring safe invalidSubstrings)"

definition urlToFilename :: "string \<Rightarrow> string" where
  "urlToFilename rawURL =
     (let safe = sanitizeStem rawURL
      in if getFileExtension safe \<noteq> ''.pdf'' then safe @ ''.pdf'' else safe)"

definition safeChar :: "char \<Rightarrow> bool" where
  "safeChar c = (isLowerAlnum c \<or> c = CHR ''_'')"

section \<open>Auxiliary predicates on sanitised stems\<close>

fun noDouble :: "string \<Rightarrow> bool" where
  \<comment> \<open>no two underscores side by side\<close>
  "noDouble (a # b # r) = (\<not> (a = CHR ''_'' \<and> b = CHR ''_'') \<and> noDouble (b # r))"
| "noDouble r = True"

definition trimmed :: "string \<Rightarrow> bool" where
  \<comment> \<open>no underscore at either end\<close>
  "trimmed s = (s = [] \<or> (hd s \<noteq> CHR ''_'' \<and> last s \<noteq> CHR ''_''))"

definition stemOk :: "string \<Rightarrow> bool" where
  "stemOk s = (list_all safeChar s \<and> noDouble s \<and> trimmed s)"
section \<open>Removing duplicates\<close>

fun dedupLoop :: "string list \<Rightarrow> (string \<Rightarrow> bool) \<Rightarrow> string list \<Rightarrow> string list" where
  \<comment> \<open>the loop of removeDuplicatesFromSlice over the rest of the slice; check is the map of
      seen values (a missing key reads as false), acc is newReturnSlice\<close>
  "dedupLoop [] check acc = acc"
| "dedupLoop (content # rest) check acc =
     (if \<not> check content
      then dedupLoop rest (check(content := True)) (acc @ [content])
      else dedupLoop rest check acc)"

definition removeDuplicatesFromSlice :: "string list \<Rightarrow> string list" where
  "removeDuplicatesFromSlice slice = dedupLoop slice (\<lambda>_. False) []"

definition firstOccurrences :: "string list \<Rightarrow> string list" where
  \<comment> \<open>the specification: the elements at the positions where a value occurs for the
      first time, in the order of the input\<close>
  "firstOccurrences xs = map (\<lambda>i. xs ! i) (filter (\<lambda>i. xs ! i \<notin> set (take i xs)) [0..<length xs])"

section \<open>Extracting the links\<close>

definition dquote :: "char" where
  \<comment> \<open>the double quote, byte 0x22\<close>
  "dquote = CHR 0x22"

definition hrefOpen :: "string" where
  \<comment> \<open>the literal start of the pattern: href= and the opening double quote\<close>
  "hrefOpen = ''href='' @ [dquote]"

definition pdfClose :: "string" where
  \<comment> \<open>the literal end of the pattern: .pdf and the closing double quote\<close>
  "pdfClose = ''.pdf'' @ [dquote]"

fun backtrack :: "nat \<Rightarrow> string \<Rightarrow> (string \<times> nat) option" where
  \<comment> \<open>the class [^"]+ holds the first k characters of t, none of them a double quote;
      the rest of the pattern is tried after them, and on failure the greedy repetition
      gives one character back, as long as one remains. The result is the capture group
      and the length of the whole match.\<close>
  "backtrack 0 t = None"
| "backtrack (Suc k) t =
     (if take 5 (drop (Suc k) t) = pdfClose
      then Some (take (Suc k + 4) t, 6 + Suc k + 5)
      else backtrack k t)"

definition matchHere :: "string \<Rightarrow> (string \<times> nat) option" where
  \<comment> \<open>the regexp href="([^"]+\.pdf)" anchored at the start of s\<close>
  "matchHere s =
     (if take 6 s = hrefOpen
      then backtrack (length (takeWhile (\<lambda>c. c \<noteq> dquote) (drop 6 s))) (drop 6 s)
      else None)"

function findAllStringSubmatch :: "string \<Rightarrow> string list list" where
  \<comment> \<open>FindAllStringSubmatch(s, -1): the successive non-overlapping matches, leftmost
      first; each match is the list of the whole match and the capture group\<close>
  "findAllStringSubmatch [] = []"
| "findAllStringSubmatch (c # cs) =
     (case matchHere (c # cs) of
        Some (cap, n) \<Rightarrow> [take n (c # cs), cap] # findAllStringSubmatch (drop (n - 1) cs)
      | None \<Rightarrow> findAllStringSubmatch cs)"
  by pat_completeness auto
termination
  by (relation "measure length") auto

definition extractPDFUrls :: "string \<Rightarrow> string list" where
  "extractPDFUrls htmlContent =
     foldl (\<lambda>pdfURLs match. if length match > 1 then pdfURLs @ [match ! 1] else pdfURLs)
       [] (findAllStringSubmatch htmlContent)"

definition hrefValue :: "string \<Rightarrow> string" where
  \<comment> \<open>for a text that starts with href=": what follows up to the next double quote\<close>
  "hrefValue t = takeWhile (\<lambda>c. c \<noteq> dquote) (drop 6 t)"

definition pdfHrefHere :: "nat \<Rightarrow> string \<Rightarrow> bool" where
  \<comment> \<open>the specification of one occurrence: the text starts with href=", a value
      free of double quotes, and the closing double quote, where the value ends in .pdf
      and has at least n characters. With n = 4 every value that ends in .pdf counts;
      with n = 5 one character must precede the suffix.\<close>
  "pdfHrefHere n t =
     (take 6 t = hrefOpen \<and>
      take 1 (drop (6 + length (hrefValue t)) t) = [dquote] \<and>
      n \<le> length (hrefValue t) \<and>
      drop (length (hrefValue t) - 4) (hrefValue t) = ''.pdf'')"

definition pdfHrefs :: "nat \<Rightarrow> string \<Rightarrow> string list" where
  \<comment> \<open>the specification of the extractor: the values of the occurrences at all
      positions of s, in the order of the positions\<close>
  "pdfHrefs n s =
     map (\<lambda>i. hrefValue (drop i s)) (filter (\<lambda>i. pdfHrefHere n (drop i s)) [0..<length s])"

fun hrefScan :: "nat \<Rightarrow> string \<Rightarrow> string list" where
  \<comment> \<open>pdfHrefs, computed along the suffixes of the text\<close>
  "hrefScan n [] = []"
| "hrefScan n (c # cs) =
     (if pdfHrefHere n (c # cs) then [hrefValue (c # cs)] else []) @ hrefScan n cs"

definition quoteFree :: "string \<Rightarrow> string" where
  \<comment> \<open>the longest prefix free of double quotes\<close>
  "quoteFree u = takeWhile (\<lambda>c. c \<noteq> dquote) u"

section \<open>Paths, the file system and the network\<close>

text \<open>
  The file system is a map from path strings to entries; the directory tree is not
  modelled, so whether a path can be created is a matter of the environment
  (\<open>ioFails\<close>). The environment also holds what the network answers and the
  functions of net/url, whose results the program only tests.
\<close>

fun splitOn :: "char \<Rightarrow> string \<Rightarrow> string list" where
  \<comment> \<open>the elements of a path between the separators\<close>
  "splitOn sep [] = [] # []"
| "splitOn sep (c # cs) =
     (if c = sep then [] # splitOn sep cs
      else (case splitOn sep cs of p # ps \<Rightarrow> (c # p) # ps | [] \<Rightarrow> [c] # []))"

fun joinSlash :: "string list \<Rightarrow> string" where
  \<comment> \<open>strings.Join(elems, "/")\<close>
  "joinSlash [] = []"
| "joinSlash [e] = e"
| "joinSlash (e # es) = e @ CHR ''/'' # joinSlash es"

definition cleanElem :: "bool \<Rightarrow> string list \<Rightarrow> string \<Rightarrow> string list" where
  \<comment> \<open>one element in filepath.Clean: empty and "." elements are dropped, ".." removes
      the element before it when there is one, is dropped at the root, and is kept at the
      start of a relative path\<close>
  "cleanElem rooted out el =
     (if el = [] \<or> el = ''.'' then out
      else if el = ''..'' then
        (if out \<noteq> [] \<and> last out \<noteq> ''..'' then butlast out
         else if rooted then out
         else out @ [el])
      else out @ [el])"

definition filepath_Clean :: "string \<Rightarrow> string" where
  "filepath_Clean path =
     (if path = [] then ''.''
      else let rooted = (hd path = CHR ''/'');
               joined = joinSlash (foldl (cleanElem rooted) [] (splitOn (CHR ''/'') path))
           in if rooted then CHR ''/'' # joined
              else if joined = [] then ''.'' else joined)"

definition filepath_Join :: "string list \<Rightarrow> string" where
  \<comment> \<open>filepath.Join: leading empty elements are ignored, the rest is joined with
      slashes and cleaned; no non-empty element gives the empty string\<close>
  "filepath_Join elems =
     (case dropWhile (\<lambda>e. e = []) elems of [] \<Rightarrow> [] | es \<Rightarrow> filepath_Clean (joinSlash es))"

datatype node = File string | Dir

type_synonym filesystem = "string \<Rightarrow> node option"

record response =
  statusCode :: nat
  status :: string
  contentType :: string  \<comment> \<open>Header.Get("Content-Type"), empty when the header is absent\<close>
  body :: string         \<comment> \<open>the bytes that reading the body delivers\<close>
  readError :: bool      \<comment> \<open>reading the body ends with an error after those bytes\<close>

datatype getResult =
    Failed "response option"  \<comment> \<open>err is not nil. The response is nil, except when a redirect
                                  was refused: then it is there and its body is closed\<close>
  | Got response              \<comment> \<open>err is nil\<close>

record parsedURL =
  Host :: string

datatype ioOp = OpCreate | OpWrite | OpMkdir | OpRemove | OpAppend | OpRead

record env =
  httpGet :: "string \<Rightarrow> getResult"
  url_Parse :: "string \<Rightarrow> parsedURL option"            \<comment> \<open>None is a parse error\<close>
  url_ParseRequestURI :: "string \<Rightarrow> parsedURL option"
  ioFails :: "ioOp \<Rightarrow> string \<Rightarrow> bool"  \<comment> \<open>the system refuses the operation on this path
      (permissions, missing parent directory, full disk)\<close>
  partialWrite :: "string \<Rightarrow> nat"      \<comment> \<open>the bytes that reach the file when a write fails\<close>

datatype logEntry =
    LogFileExists string
  | LogDownloadFailed string
  | LogBadStatus string string
  | LogInvalidContentType string string
  | LogReadFailed string
  | LogZeroBytes string
  | LogCreateFailed string
  | LogWriteFailed string
  | LogSuccess nat string string
  | LogScraping string
  | LogError

record world =
  fs :: filesystem
  logs :: "logEntry list"
  requests :: "string list"  \<comment> \<open>the URLs of the GET requests sent so far\<close>

definition logPrint :: "logEntry \<Rightarrow> world \<Rightarrow> world" where
  "logPrint entry w = w\<lparr>logs := logs w @ [entry]\<rparr>"

definition fileExists :: "filesystem \<Rightarrow> string \<Rightarrow> bool" where
  \<comment> \<open>os.Stat succeeds and the entry is not a directory\<close>
  "fileExists f filename = (case f filename of Some (File _) \<Rightarrow> True | _ \<Rightarrow> False)"

definition directoryExists :: "filesystem \<Rightarrow> string \<Rightarrow> bool" where
  "directoryExists f path = (case f path of Some Dir \<Rightarrow> True | _ \<Rightarrow> False)"

definition os_Create :: "env \<Rightarrow> filesystem \<Rightarrow> string \<Rightarrow> filesystem option" where
  \<comment> \<open>os.Create: fails on a directory or when the system refuses; otherwise the file is
      there and empty\<close>
  "os_Create e f path =
     (if f path = Some Dir \<or> ioFails e OpCreate path then None
      else Some (f(path \<mapsto> File [])))"

definition downloadPDF :: "env \<Rightarrow> string \<Rightarrow> string \<Rightarrow> world \<Rightarrow> bool \<times> world" where
  "downloadPDF e finalURL outputDir w =
     (let filename = strings_ToLower (urlToFilename finalURL);
          filePath = filepath_Join [outputDir, filename]
      in if fileExists (fs w) filePath then (False, logPrint (LogFileExists filePath) w)
         else
           let w1 = w\<lparr>requests := requests w @ [finalURL]\<rparr> in
           case httpGet e finalURL of
             Failed _ \<Rightarrow> (False, logPrint (LogDownloadFailed finalURL) w1)
           | Got resp \<Rightarrow>
               if statusCode resp \<noteq> 200
               then (False, logPrint (LogBadStatus finalURL (status resp)) w1)
               else if \<not> strings_Contains (contentType resp) ''binary/octet-stream'' \<and>
                       \<not> strings_Contains (contentType resp) ''application/pdf''
               then (False, logPrint (LogInvalidContentType finalURL (contentType resp)) w1)
               else if readError resp
               then (False, logPrint (LogReadFailed finalURL) w1)
               else if length (body resp) = 0
               then (False, logPrint (LogZeroBytes finalURL) w1)
               else
                 case os_Create e (fs w1) filePath of
                   None \<Rightarrow> (False, logPrint (LogCreateFailed finalURL) w1)
                 | Some f1 \<Rightarrow>
                     if ioFails e OpWrite filePath
                     then (False, logPrint (LogWriteFailed finalURL)
                             (w1\<lparr>fs := f1(filePath \<mapsto>
                                     File (take (partialWrite e filePath) (body resp)))\<rparr>))
                     else (True, logPrint (LogSuccess (length (body resp)) finalURL filePath)
                             (w1\<lparr>fs := f1(filePath \<mapsto> File (body resp))\<rparr>)))"

definition targetPath :: "string \<Rightarrow> string \<Rightarrow> string" where
  \<comment> \<open>the path of the file that belongs to a URL\<close>
  "targetPath outputDir finalURL = filepath_Join [outputDir, urlToFilename finalURL]"

section \<open>The pipeline\<close>

datatype 'a outcome = Returns 'a world | Panics world

definition createDirectory :: "env \<Rightarrow> string \<Rightarrow> world \<Rightarrow> world" where
  \<comment> \<open>os.Mkdir fails when the path exists or the system refuses; the error is logged\<close>
  "createDirectory e path w =
     (if fs w path \<noteq> None \<or> ioFails e OpMkdir path then logPrint LogError w
      else w\<lparr>fs := (fs w)(path \<mapsto> Dir)\<rparr>)"

definition removeFile :: "env \<Rightarrow> string \<Rightarrow> world \<Rightarrow> world" where
  "removeFile e path w =
     (if fs w path = None \<or> ioFails e OpRemove path then logPrint LogError w
      else w\<lparr>fs := (fs w)(path := None)\<rparr>)"

definition isUrlValid :: "env \<Rightarrow> string \<Rightarrow> bool" where
  "isUrlValid e uri = (url_ParseRequestURI e uri \<noteq> None)"

definition hasDomain :: "env \<Rightarrow> string \<Rightarrow> bool" where
  "hasDomain e rawURL =
     (case url_Parse e rawURL of None \<Rightarrow> False | Some parsed \<Rightarrow> Host parsed \<noteq> [])"

definition getDataFromURL :: "env \<Rightarrow> string \<Rightarrow> world \<Rightarrow> string outcome" where
  \<comment> \<open>After a failed request the error is logged and the function goes on to read
      response.Body: with a nil response that is a nil pointer dereference. A response
      that came with an error has a closed body; reading it gives no bytes.\<close>
  "getDataFromURL e uri w =
     (let w1 = logPrint (LogScraping uri) w;
          w2 = w1\<lparr>requests := requests w1 @ [uri]\<rparr>
      in case httpGet e uri of
           Failed None \<Rightarrow> Panics (logPrint LogError w2)
         | Failed (Some resp) \<Rightarrow> Returns [] (logPrint LogError w2)
         | Got resp \<Rightarrow>
             Returns (body resp) (if readError resp then logPrint LogError w2 else w2))"

definition appendAndWriteToFile :: "env \<Rightarrow> string \<Rightarrow> string \<Rightarrow> world \<Rightarrow> world" where
  \<comment> \<open>When the file cannot be opened, the write and the close on the nil file return
      errors as well; all three are logged\<close>
  "appendAndWriteToFile e path content w =
     (if fs w path = Some Dir \<or> ioFails e OpAppend path
      then logPrint LogError (logPrint LogError (logPrint LogError w))
      else
        let old = (case fs w path of Some (File c) \<Rightarrow> c | _ \<Rightarrow> []);
            new = content @ [CHR 0x0A]
        in if ioFails e OpWrite path
           then logPrint LogError
                  (w\<lparr>fs := (fs w)(path \<mapsto> File (old @ take (partialWrite e path) new))\<rparr>)
           else w\<lparr>fs := (fs w)(path \<mapsto> File (old @ new))\<rparr>)"

definition readAFileAsString :: "env \<Rightarrow> string \<Rightarrow> world \<Rightarrow> string \<times> world" where
  "readAFileAsString e path w =
     (case fs w path of
        Some (File c) \<Rightarrow> if ioFails e OpRead path then ([], logPrint LogError w) else (c, w)
      | _ \<Rightarrow> ([], logPrint LogError w))"

fun fetchLoop :: "env \<Rightarrow> string \<Rightarrow> string list \<Rightarrow> world \<Rightarrow> unit outcome" where
  \<comment> \<open>the first loop of main; a panic ends the program\<close>
  "fetchLoop e localFile [] w = Returns () w"
| "fetchLoop e localFile (url # rest) w =
     (case getDataFromURL e url w of
        Panics w' \<Rightarrow> Panics w'
      | Returns pageContent w' \<Rightarrow>
          fetchLoop e localFile rest (appendAndWriteToFile e localFile pageContent w'))"

fun downloadLoop :: "env \<Rightarrow> string \<Rightarrow> string list \<Rightarrow> world \<Rightarrow> world" where
  \<comment> \<open>the second loop of main\<close>
  "downloadLoop e outputDir [] w = w"
| "downloadLoop e outputDir (urls # rest) w =
     (let urls = (if \<not> hasDomain e urls then ''https://www.nclonline.com'' @ urls else urls)
      in downloadLoop e outputDir rest
           (if isUrlValid e urls then snd (downloadPDF e urls outputDir w) else w))"

definition mainWith :: "env \<Rightarrow> string list \<Rightarrow> world \<Rightarrow> unit outcome" where
  \<comment> \<open>main, with the fixed list remoteURL of seed pages as an argument\<close>
  "mainWith e remoteURL w =
     (let outputDir = ''PDFs/'';
          w = (if \<not> directoryExists (fs w) outputDir then createDirectory e outputDir w else w);
          localFile = ''nclonline.html'';
          w = (if fileExists (fs w) localFile then removeFile e localFile w else w)
      in case fetchLoop e localFile remoteURL w of
           Panics w' \<Rightarrow> Panics w'
         | Returns _ w \<Rightarrow>
             let (fileContent, w) = readAFileAsString e localFile w;
                 extractedPDFURLs = removeDuplicatesFromSlice (extractPDFUrls fileContent)
             in Returns () (downloadLoop e outputDir extractedPDFURLs w))"

section \<open>Example environments\<close>

definition okResponse :: "response" where
  "okResponse = \<lparr>statusCode = 200, status = ''200 OK'', contentType = ''application/pdf'',
                  body = ''%PDF-1.4'', readError = False\<rparr>"

definition htmlResponse :: "response" where
  "htmlResponse = \<lparr>statusCode = 200, status = ''200 OK'', contentType = ''text/html'',
                    body = ''<html></html>'', readError = False\<rparr>"

definition emptyResponse :: "response" where
  "emptyResponse = \<lparr>statusCode = 200, status = ''200 OK'', contentType = ''application/pdf'',
                     body = [], readError = False\<rparr>"

definition exampleParse :: "string \<Rightarrow> parsedURL option" where
  \<comment> \<open>a stand-in for net/url on the strings of the examples: the host of an https URL
      is what lies between the scheme and the next slash, anything else has no host\<close>
  "exampleParse u =
     (if take 8 u = ''https://''
      then Some \<lparr>Host = takeWhile (\<lambda>c. c \<noteq> CHR ''/'') (drop 8 u)\<rparr>
      else Some \<lparr>Host = []\<rparr>)"

definition serverEnv :: "response \<Rightarrow> env" where
  \<comment> \<open>every request is answered with the given response, the disk never fails\<close>
  "serverEnv r = \<lparr>httpGet = (\<lambda>_. Got r), url_Parse = exampleParse,
                   url_ParseRequestURI = exampleParse, ioFails = (\<lambda>_ _. False),
                   partialWrite = (\<lambda>_. 0)\<rparr>"

definition offlineEnv :: "env" where
  \<comment> \<open>every request fails with a connection error\<close>
  "offlineEnv = \<lparr>httpGet = (\<lambda>_. Failed None), url_Parse = exampleParse,
                  url_ParseRequestURI = exampleParse, ioFails = (\<lambda>_ _. False),
                  partialWrite = (\<lambda>_. 0)\<rparr>"

definition emptyWorld :: "world" where
  "emptyWorld = \<lparr>fs = Map.empty, logs = [], requests = []\<rparr>"

definition worldWithDoc :: "world" where
  \<comment> \<open>the output directory already holds doc.pdf\<close>
  "worldWithDoc = \<lparr>fs = [''PDFs/doc.pdf'' \<mapsto> File ''old''], logs = [], requests = []\<rparr>"

section \<open>The shape of a sanitised filename\<close>

lemma byte_simps: "byte (CHR ''.'') = 46" "byte (CHR ''/'') = 47" "byte (CHR ''_'') = 95"
  by (simp_all add: byte_def)

lemma safeChar_not_dot: "safeChar c \<Longrightarrow> c \<noteq> CHR ''.'' \<and> c \<noteq> CHR ''/''"
  by (auto simp: safeChar_def isLowerAlnum_def byte_def)

lemma replaceNonAlnum_safe: "list_all safeChar (replaceNonAlnum s)"
  by (induction s rule: replaceNonAlnum.induct) (auto simp: safeChar_def)

lemma set_collapseUnderscores: "set (collapseUnderscores s) \<subseteq> set s"
proof (induction s rule: collapseUnderscores.induct)
  case 1
  show ?case by simp
next
  case (2 c cs)
  show ?case
  proof (cases "c = CHR ''_''")
    case True
    with 2 have "set (collapseUnderscores (dropWhile (\<lambda>x. x = CHR ''_'') cs)) \<subseteq> set cs"
      using set_dropWhileD by fastforce
    with True show ?thesis by auto
  next
    case False
    with 2 show ?thesis by auto
  qed
qed

lemma set_strings_Trim: "set (strings_Trim s cutset) \<subseteq> set s"
  unfolding strings_Trim_def by (auto dest!: set_dropWhileD)

lemma set_removeAll: "set (removeAll old s) \<subseteq> set s"
proof (induction old s rule: removeAll.induct)
  case (1 old)
  show ?case by simp
next
  case (2 old c cs)
  show ?case
  proof (cases "occursAt old (c # cs)")
    case True
    with 2 have "set (removeAll old (drop (length old) (c # cs))) \<subseteq> set (drop (length old) (c # cs))"
      by simp
    moreover have "set (drop (length old) (c # cs)) \<subseteq> set (c # cs)"
      by (rule set_drop_subset)
    ultimately show ?thesis using True by auto
  next
    case False
    with 2 show ?thesis by auto
  qed
qed

lemma sanitizeStem_safe: "list_all safeChar (sanitizeStem x)"
proof -
  let ?r = "replaceNonAlnum (getFilename (strings_ToLower x))"
  have "set (sanitizeStem x) \<subseteq> set ?r"
    unfolding sanitizeStem_def Let_def invalidSubstrings_def removeSubstring_def
    using set_removeAll set_strings_Trim set_collapseUnderscores
    by (simp, blast)
  with replaceNonAlnum_safe[of "getFilename (strings_ToLower x)"] show ?thesis
    by (auto simp: list_all_iff)
qed

lemma extScan_no_dot: "CHR ''.'' \<notin> set r \<Longrightarrow> extScan r acc = []"
  by (induction r acc rule: extScan.induct) auto

lemma filepath_Ext_no_dot: "CHR ''.'' \<notin> set s \<Longrightarrow> filepath_Ext s = []"
  by (simp add: filepath_Ext_def extScan_no_dot)

lemma urlToFilename_stem: "urlToFilename x = sanitizeStem x @ ''.pdf''"
proof -
  have "CHR ''.'' \<notin> set (sanitizeStem x)"
    using sanitizeStem_safe[of x] safeChar_not_dot by (auto simp: list_all_iff)
  then have "getFileExtension (sanitizeStem x) = []"
    by (simp add: getFileExtension_def filepath_Ext_no_dot)
  then show ?thesis by (simp add: urlToFilename_def)
qed

text \<open>
  Claim C9. For every input string, the output of urlToFilename is the sanitised stem
  followed by the suffix .pdf, which is always freshly appended: the extension check
  before the append never finds .pdf, because the stem holds only characters of
  [a-z0-9_]. The output therefore contains exactly one dot.
\<close>

theorem urlToFilename_shape:
  "getFileExtension (sanitizeStem x) \<noteq> ''.pdf'' \<and>
   urlToFilename x = sanitizeStem x @ ''.pdf'' \<and>
   list_all (\<lambda>c. isLowerAlnum c \<or> c = CHR ''_'') (sanitizeStem x) \<and>
   count_list (urlToFilename x) (CHR ''.'') = 1"
proof -
  have safe: "list_all safeChar (sanitizeStem x)" by (rule sanitizeStem_safe)
  then have nodot: "CHR ''.'' \<notin> set (sanitizeStem x)"
    using safeChar_not_dot by (auto simp: list_all_iff)
  then have ext: "getFileExtension (sanitizeStem x) = []"
    by (simp add: getFileExtension_def filepath_Ext_no_dot)
  have "count_list (sanitizeStem x) (CHR ''.'') = 0"
    using nodot by (simp add: count_list_0_iff)
  then have "count_list (urlToFilename x) (CHR ''.'') = 1"
    by (simp add: urlToFilename_stem)
  with safe ext urlToFilename_stem[of x] show ?thesis
    by (simp add: safeChar_def list_all_iff)
qed

theorem urlToFilename_shape_witness:
  "urlToFilename ''/a/Doc File.PDF'' = ''doc_file.pdf'' \<and> sanitizeStem ''/a/Doc File.PDF'' = ''doc_file'' \<and>
   list_all (\<lambda>c. isLowerAlnum c \<or> c = CHR ''_'') ''doc_file''"
  using urlToFilename_shape[of "''/a/Doc File.PDF''"]
  by code_simp
section \<open>Re-applying the sanitiser\<close>

lemma noDouble_Cons: "noDouble (a # r) = ((r \<noteq> [] \<longrightarrow> \<not> (a = CHR ''_'' \<and> hd r = CHR ''_'')) \<and> noDouble r)"
  by (cases r) auto

lemma noDouble_dropWhile: "noDouble s \<Longrightarrow> noDouble (dropWhile P s)"
  by (induction s) (auto simp: noDouble_Cons)

lemma noDouble_drop: "noDouble s \<Longrightarrow> noDouble (drop n s)"
proof (induction s arbitrary: n)
  case Nil
  show ?case by simp
next
  case (Cons a s)
  then show ?case by (cases n) (auto simp: noDouble_Cons)
qed

lemma noDouble_append:
  "noDouble (a @ b) = (noDouble a \<and> noDouble b \<and> (a \<noteq> [] \<and> b \<noteq> [] \<longrightarrow> \<not> (last a = CHR ''_'' \<and> hd b = CHR ''_'')))"
proof (induction a)
  case Nil
  show ?case by simp
next
  case (Cons x a)
  show ?case
  proof (cases a)
    case Nil
    then show ?thesis by (auto simp: noDouble_Cons)
  next
    case (Cons y ys)
    with Cons.IH show ?thesis by (auto simp: noDouble_Cons)
  qed
qed

lemma noDouble_rev: "noDouble (rev s) = noDouble s"
  by (induction s) (auto simp: noDouble_append noDouble_Cons hd_rev last_rev)

lemma hd_collapse: "s \<noteq> [] \<Longrightarrow> collapseUnderscores s \<noteq> [] \<and> hd (collapseUnderscores s) = hd s"
  by (cases s) auto

lemma noDouble_collapse: "noDouble (collapseUnderscores s)"
proof (induction s rule: collapseUnderscores.induct)
  case 1
  show ?case by simp
next
  case (2 c cs)
  show ?case
  proof (cases "c = CHR ''_''")
    case True
    let ?d = "dropWhile (\<lambda>x. x = CHR ''_'') cs"
    have ih: "noDouble (collapseUnderscores ?d)" using 2 True by simp
    have "?d \<noteq> [] \<Longrightarrow> hd ?d \<noteq> CHR ''_''"
      using hd_dropWhile[of "\<lambda>x. x = CHR ''_''" cs] by simp
    then have "collapseUnderscores ?d \<noteq> [] \<Longrightarrow> hd (collapseUnderscores ?d) \<noteq> CHR ''_''"
      using hd_collapse[of ?d] by (cases "?d = []") auto
    with ih True show ?thesis by (simp add: noDouble_Cons)
  next
    case False
    with 2 show ?thesis by (simp add: noDouble_Cons)
  qed
qed

lemma collapse_id: "noDouble s \<Longrightarrow> collapseUnderscores s = s"
proof (induction s rule: collapseUnderscores.induct)
  case 1
  show ?case by simp
next
  case (2 c cs)
  show ?case
  proof (cases "c = CHR ''_''")
    case True
    with "2.prems" have "cs = [] \<or> hd cs \<noteq> CHR ''_''" by (auto simp: noDouble_Cons)
    then have d: "dropWhile (\<lambda>x. x = CHR ''_'') cs = cs" by (cases cs) auto
    from "2.prems" have "noDouble cs" by (simp add: noDouble_Cons)
    with 2 True d show ?thesis by simp
  next
    case False
    from "2.prems" have "noDouble cs" by (simp add: noDouble_Cons)
    with 2 False show ?thesis by simp
  qed
qed

lemma noDouble_Trim: "noDouble s \<Longrightarrow> noDouble (strings_Trim s cutset)"
  unfolding strings_Trim_def by (simp add: noDouble_rev noDouble_dropWhile)

lemma last_dropWhile_eq: "dropWhile P xs \<noteq> [] \<Longrightarrow> last (dropWhile P xs) = last xs"
proof -
  assume ne: "dropWhile P xs \<noteq> []"
  have "last xs = last (takeWhile P xs @ dropWhile P xs)" by simp
  also have "\<dots> = last (dropWhile P xs)" using ne by (rule last_appendR)
  finally show ?thesis by simp
qed

lemma trim_ends:
  fixes P :: "'a \<Rightarrow> bool"
  defines "t \<equiv> \<lambda>s. rev (dropWhile P (rev (dropWhile P s)))"
  assumes ne: "t s \<noteq> []"
  shows "\<not> P (hd (t s)) \<and> \<not> P (last (t s))"
proof -
  define a where "a = dropWhile P s"
  define b where "b = dropWhile P (rev a)"
  have ts: "t s = rev b" by (simp add: t_def a_def b_def)
  with ne have bne: "b \<noteq> []" by simp
  then have "\<not> P (hd b)" unfolding b_def by (rule hd_dropWhile)
  then have l: "\<not> P (last (rev b))" using bne by (simp add: last_rev)
  from bne have "rev a \<noteq> []" unfolding b_def by auto
  then have ane: "a \<noteq> []" by simp
  then have ha: "\<not> P (hd a)" unfolding a_def by (rule hd_dropWhile)
  have "last b = last (rev a)" using bne unfolding b_def by (rule last_dropWhile_eq)
  then have "hd (rev b) = hd a" using bne ane by (simp add: hd_rev last_rev)
  with ha l ts show ?thesis by simp
qed

lemma trimmed_Trim: "trimmed (strings_Trim s ''_'')"
proof (cases "strings_Trim s ''_'' = []")
  case True
  then show ?thesis by (simp only: trimmed_def simp_thms)
next
  case False
  then have "rev (dropWhile (\<lambda>c. c \<in> set ''_'') (rev (dropWhile (\<lambda>c. c \<in> set ''_'') s))) \<noteq> []"
    unfolding strings_Trim_def .
  from trim_ends[OF this] have "hd (strings_Trim s ''_'') \<notin> set ''_'' \<and> last (strings_Trim s ''_'') \<notin> set ''_''"
    unfolding strings_Trim_def .
  then show ?thesis by (simp add: trimmed_def)
qed

lemma occursAt_hd: "occursAt old s \<Longrightarrow> s \<noteq> [] \<and> hd s = hd old"
proof -
  assume a: "occursAt old s"
  then have o: "old \<noteq> []" and t: "take (length old) s = old" by (simp_all add: occursAt_def)
  from o t have "s \<noteq> []" by auto
  moreover from o have "hd (take (length old) s) = hd s" by (simp add: hd_take)
  ultimately show ?thesis using t by simp
qed

lemma removeAll_hd:
  "old = [] \<or> hd old = CHR ''_'' \<Longrightarrow> removeAll old t \<noteq> [] \<Longrightarrow>
   hd (removeAll old t) = CHR ''_'' \<Longrightarrow> t \<noteq> [] \<and> hd t = CHR ''_''"
proof (cases t)
  case Nil
  assume "removeAll old t \<noteq> []"
  with Nil show ?thesis by simp
next
  case (Cons c cs)
  assume o: "old = [] \<or> hd old = CHR ''_''" and h: "hd (removeAll old t) = CHR ''_''"
  show ?thesis
  proof (cases "occursAt old (c # cs)")
    case True
    then have "hd (c # cs) = hd old" and "old \<noteq> []" using occursAt_hd[of old "c # cs"] by (simp_all add: occursAt_def)
    with o Cons show ?thesis by simp
  next
    case False
    with h Cons show ?thesis by simp
  qed
qed

lemma noDouble_removeAll:
  "old = [] \<or> hd old = CHR ''_'' \<Longrightarrow> noDouble t \<Longrightarrow> noDouble (removeAll old t)"
proof (induction old t rule: removeAll.induct)
  case (1 old)
  show ?case by simp
next
  case (2 old c cs)
  show ?case
  proof (cases "occursAt old (c # cs)")
    case True
    have "noDouble (drop (length old) (c # cs))" using "2.prems"(2) by (rule noDouble_drop)
    with 2 True show ?thesis by simp
  next
    case False
    from "2.prems"(2) have nd: "noDouble cs" by (simp add: noDouble_Cons)
    with 2 False have ih: "noDouble (removeAll old cs)" by simp
    have "removeAll old cs \<noteq> [] \<Longrightarrow> \<not> (c = CHR ''_'' \<and> hd (removeAll old cs) = CHR ''_'')"
    proof
      assume ne: "removeAll old cs \<noteq> []" and "c = CHR ''_'' \<and> hd (removeAll old cs) = CHR ''_''"
      then have c: "c = CHR ''_''" and h: "hd (removeAll old cs) = CHR ''_''" by simp_all
      from removeAll_hd[OF "2.prems"(1) ne h] have "cs \<noteq> [] \<and> hd cs = CHR ''_''" .
      with c "2.prems"(2) show False by (simp add: noDouble_Cons)
    qed
    with ih False show ?thesis by (simp add: noDouble_Cons)
  qed
qed

lemma removeAll_Nil_match:
  "removeAll old cs = [] \<Longrightarrow> cs \<noteq> [] \<Longrightarrow> occursAt old cs"
  by (cases cs) (auto split: if_splits)

lemma removeAll_last:
  "old = [] \<or> hd old = CHR ''_'' \<Longrightarrow> noDouble t \<Longrightarrow> t = [] \<or> last t \<noteq> CHR ''_'' \<Longrightarrow>
   removeAll old t = [] \<or> last (removeAll old t) \<noteq> CHR ''_''"
proof (induction old t rule: removeAll.induct)
  case (1 old)
  show ?case by simp
next
  case (2 old c cs)
  show ?case
  proof (cases "occursAt old (c # cs)")
    case True
    let ?d = "drop (length old) (c # cs)"
    have nd: "noDouble ?d" using "2.prems"(2) by (rule noDouble_drop)
    have "?d = [] \<or> last ?d \<noteq> CHR ''_''"
    proof (cases "?d = []")
      case True
      then show ?thesis by simp
    next
      case False
      then have "length old < length (c # cs)" by simp
      then have "last ?d = last (c # cs)" by (rule last_drop)
      with "2.prems"(3) show ?thesis by simp
    qed
    with 2 True nd show ?thesis by simp
  next
    case False
    from "2.prems"(2) have nd: "noDouble cs" by (simp add: noDouble_Cons)
    show ?thesis
    proof (cases "removeAll old cs = []")
      case rn: True
      have "c \<noteq> CHR ''_''"
      proof (cases "cs = []")
        case True
        with "2.prems"(3) show ?thesis by simp
      next
        case cne: False
        from removeAll_Nil_match[OF rn cne] have m: "occursAt old cs" .
        then have "hd cs = hd old" and "old \<noteq> []" using occursAt_hd[of old cs] by (simp_all add: occursAt_def)
        with "2.prems"(1) have "hd cs = CHR ''_''" by simp
        with cne "2.prems"(2) show ?thesis by (auto simp: noDouble_Cons)
      qed
      with False rn show ?thesis by simp
    next
      case rne: False
      then have cne: "cs \<noteq> []" by auto
      with "2.prems"(3) have "cs = [] \<or> last cs \<noteq> CHR ''_''" by simp
      with 2 False nd have "removeAll old cs = [] \<or> last (removeAll old cs) \<noteq> CHR ''_''" by simp
      with rne False show ?thesis by simp
    qed
  qed
qed

lemma length_removeAll: "length (removeAll old s) \<le> length s"
proof (induction old s rule: removeAll.induct)
  case (1 old)
  show ?case by simp
next
  case (2 old c cs)
  show ?case
  proof (cases "occursAt old (c # cs)")
    case True
    with 2 have "length (removeAll old (drop (length old) (c # cs))) \<le> length (drop (length old) (c # cs))"
      by simp
    also have "\<dots> \<le> length (c # cs)" by simp
    finally show ?thesis using True by simp
  next
    case False
    with 2 show ?thesis by simp
  qed
qed

lemma removeAll_id_iff: "removeAll old s = s \<longleftrightarrow> old = [] \<or> \<not> strings_Contains s old"
proof (induction old s rule: removeAll.induct)
  case (1 old)
  show ?case by auto
next
  case (2 old c cs)
  show ?case
  proof (cases "occursAt old (c # cs)")
    case True
    then have o: "old \<noteq> []" and t: "take (length old) (c # cs) = old" by (simp_all add: occursAt_def)
    have "length (removeAll old (drop (length old) (c # cs))) \<le> length (drop (length old) (c # cs))"
      by (rule length_removeAll)
    also have "\<dots> < length (c # cs)" using o by simp
    finally have "removeAll old (drop (length old) (c # cs)) \<noteq> c # cs" by auto
    with True o t show ?thesis by simp
  next
    case False
    then have "old = [] \<or> take (length old) (c # cs) \<noteq> old" by (simp add: occursAt_def)
    with 2 False show ?thesis by auto
  qed
qed

lemma occursAt_length: "occursAt old s \<Longrightarrow> length old \<le> length s"
proof -
  assume "occursAt old s"
  then have "take (length old) s = old" by (simp add: occursAt_def)
  then have "length (take (length old) s) = length old" by simp
  then show ?thesis by simp
qed

lemma occursAt_pdf_append:
  "occursAt ''_pdf'' ((c # cs) @ ''_pdf'') = occursAt ''_pdf'' (c # cs)"
proof (cases "length (c # cs) \<ge> 4")
  case True
  then show ?thesis by (simp add: occursAt_def)
next
  case False
  then consider "cs = []" | a where "cs = [a]" | a b where "cs = [a, b]"
    by (cases cs; cases "tl cs"; cases "tl (tl cs)") auto
  then show ?thesis by cases (auto simp: occursAt_def)
qed

lemma removeAll_self: "old \<noteq> [] \<Longrightarrow> removeAll old old = []"
proof (cases old)
  case Nil
  assume "old \<noteq> []"
  with Nil show ?thesis by simp
next
  case (Cons c cs)
  then have "occursAt old (c # cs)" by (simp add: occursAt_def)
  then have "removeAll old (c # cs) = removeAll old (drop (length old) (c # cs))" by simp
  with Cons show ?thesis by simp
qed

lemma removeAll_append_old:
  assumes H: "\<And>c cs. occursAt old ((c # cs) @ old) = occursAt old (c # cs)" and o: "old \<noteq> []"
  shows "removeAll old (s @ old) = removeAll old s"
proof (induction s rule: length_induct)
  case (1 s)
  show ?case
  proof (cases s)
    case Nil
    with o show ?thesis by (simp add: removeAll_self)
  next
    case (Cons c cs)
    show ?thesis
    proof (cases "occursAt old (c # cs)")
      case True
      then have len: "length old \<le> length (c # cs)" by (rule occursAt_length)
      let ?d = "drop (length old) (c # cs)"
      have a: "occursAt old (c # (cs @ old))" using True H[of c cs] by simp
      have "length ?d < length s" using o Cons by simp
      with 1 have ih: "removeAll old (?d @ old) = removeAll old ?d" by blast
      have "drop (length old) ((c # cs) @ old) = ?d @ old" using len by (simp only: drop_append) simp
      then have "drop (length old) (c # (cs @ old)) = ?d @ old" by simp
      then have "removeAll old (c # (cs @ old)) = removeAll old (?d @ old)" using a by simp
      also have "\<dots> = removeAll old (c # cs)" using ih True by simp
      finally show ?thesis using Cons by simp
    next
      case False
      then have a: "\<not> occursAt old (c # (cs @ old))" using H[of c cs] by simp
      have "length cs < length s" using Cons by simp
      with 1 have ih: "removeAll old (cs @ old) = removeAll old cs" by blast
      from a have "removeAll old (c # (cs @ old)) = c # removeAll old (cs @ old)" by simp
      with ih False Cons show ?thesis by simp
    qed
  qed
qed

lemma removeAll_pdf_append: "removeAll ''_pdf'' (s @ ''_pdf'') = removeAll ''_pdf'' s"
  by (rule removeAll_append_old) (simp_all only: occursAt_pdf_append, simp)

lemma trimmed_removeAll:
  assumes o: "old = [] \<or> hd old = CHR ''_''" and nd: "noDouble t" and tr: "trimmed t"
  shows "trimmed (removeAll old t)"
proof (cases "removeAll old t = []")
  case True
  then show ?thesis by (simp add: trimmed_def)
next
  case False
  then have tne: "t \<noteq> []" by auto
  with tr have ht: "hd t \<noteq> CHR ''_''" and lt: "last t \<noteq> CHR ''_''" by (simp_all add: trimmed_def)
  have "hd (removeAll old t) \<noteq> CHR ''_''"
    using removeAll_hd[OF o False] ht by blast
  moreover have "last (removeAll old t) \<noteq> CHR ''_''"
    using removeAll_last[OF o nd] lt False by blast
  ultimately show ?thesis by (simp add: trimmed_def)
qed

lemma sanitizeStem_ok: "stemOk (sanitizeStem x)"
proof -
  let ?c = "collapseUnderscores (replaceNonAlnum (getFilename (strings_ToLower x)))"
  let ?t = "strings_Trim ?c ''_''"
  have eq: "sanitizeStem x = removeAll ''_pdf'' ?t"
    by (simp add: sanitizeStem_def invalidSubstrings_def removeSubstring_def)
  have o: "''_pdf'' = [] \<or> hd ''_pdf'' = CHR ''_''" by simp
  have nd: "noDouble ?t" by (rule noDouble_Trim) (rule noDouble_collapse)
  have tr: "trimmed ?t" by (rule trimmed_Trim)
  have "noDouble (removeAll ''_pdf'' ?t)" using o nd by (rule noDouble_removeAll)
  moreover have "trimmed (removeAll ''_pdf'' ?t)" using o nd tr by (rule trimmed_removeAll)
  ultimately show ?thesis using sanitizeStem_safe[of x] eq by (simp add: stemOk_def)
qed

lemma safeChar_ascii: "safeChar c \<Longrightarrow> isAscii c \<and> \<not> isUpper c"
  by (auto simp: safeChar_def isLowerAlnum_def isAscii_def isUpper_def byte_def)

lemma strings_ToLower_id:
  "list_all (\<lambda>c. isAscii c \<and> \<not> isUpper c) s \<Longrightarrow> strings_ToLower s = s"
proof -
  assume a: "list_all (\<lambda>c. isAscii c \<and> \<not> isUpper c) s"
  then have "list_all isAscii s" by (simp add: list_all_iff)
  moreover from a have "map asciiLower s = s"
    by (induction s) (auto simp: asciiLower_def)
  ultimately show ?thesis by (simp add: strings_ToLower_def)
qed

lemma filepath_Base_id:
  assumes ne: "s \<noteq> []" and ns: "CHR ''/'' \<notin> set s"
  shows "filepath_Base s = s"
proof -
  have "last s \<in> set s" using ne by (rule last_in_set)
  with ns have "last s \<noteq> CHR ''/''" by auto
  then have "\<not> (\<lambda>c. c = CHR ''/'') (hd (rev s))" using ne by (simp add: hd_rev)
  then have d: "dropWhile (\<lambda>c. c = CHR ''/'') (rev s) = rev s" using ne by (cases "rev s") auto
  have t: "takeWhile (\<lambda>c. c \<noteq> CHR ''/'') (rev s) = rev s" using ns by (auto simp: takeWhile_eq_all_conv)
  show ?thesis using ne by (simp add: filepath_Base_def d t Let_def)
qed

lemma runeWidth_ascii: "isAscii c \<Longrightarrow> runeWidth (c # cs) = 1"
  by (simp add: isAscii_def seqLen_def)

lemma replaceNonAlnum_ascii:
  "list_all isAscii s \<Longrightarrow> replaceNonAlnum s = map (\<lambda>c. if isLowerAlnum c then c else CHR ''_'') s"
  by (induction s) (auto simp: runeWidth_ascii simp del: runeWidth.simps)

lemma replaceNonAlnum_safe_id:
  "list_all safeChar s \<Longrightarrow> map (\<lambda>c. if isLowerAlnum c then c else CHR ''_'') s = s"
  by (induction s) (auto simp: safeChar_def)

lemma strings_Trim_id:
  assumes "s \<noteq> []" "hd s \<noteq> CHR ''_''" "last s \<noteq> CHR ''_''"
  shows "strings_Trim s ''_'' = s"
proof -
  have a: "dropWhile (\<lambda>c. c \<in> set ''_'') s = s" using assms by (cases s) auto
  have "hd (rev s) \<noteq> CHR ''_''" using assms by (simp add: hd_rev)
  then have b: "dropWhile (\<lambda>c. c \<in> set ''_'') (rev s) = rev s" using assms(1) by (cases "rev s") auto
  show ?thesis by (simp only: strings_Trim_def a b rev_rev_ident)
qed

lemma stem_after_pdf:
  assumes ok: "stemOk c"
  shows "sanitizeStem (c @ ''.pdf'') = (if c = [] then ''pdf'' else removeAll ''_pdf'' c)"
proof -
  let ?s = "c @ ''.pdf''"
  from ok have safe: "list_all safeChar c" and nd: "noDouble c" and tr: "trimmed c"
    by (simp_all add: stemOk_def)
  have asc: "list_all (\<lambda>c. isAscii c \<and> \<not> isUpper c) ?s"
    using safe safeChar_ascii by (auto simp: list_all_iff isAscii_def isUpper_def byte_def)
  then have s1: "strings_ToLower ?s = ?s" by (rule strings_ToLower_id)
  have "CHR ''/'' \<notin> set ?s" using safe safeChar_not_dot by (auto simp: list_all_iff)
  then have s2: "getFilename ?s = ?s" by (simp add: getFilename_def filepath_Base_id)
  from asc have "list_all isAscii ?s" by (simp add: list_all_iff)
  then have "replaceNonAlnum ?s = map (\<lambda>c. if isLowerAlnum c then c else CHR ''_'') ?s"
    by (rule replaceNonAlnum_ascii)
  also have "\<dots> = c @ ''_pdf''"
    using replaceNonAlnum_safe_id[OF safe] by (simp add: isLowerAlnum_def byte_def)
  finally have s3: "replaceNonAlnum ?s = c @ ''_pdf''" .
  have "noDouble (c @ ''_pdf'')" using nd tr by (auto simp: noDouble_append trimmed_def)
  then have s4: "collapseUnderscores (c @ ''_pdf'') = c @ ''_pdf''" by (rule collapse_id)
  have s5: "strings_Trim (c @ ''_pdf'') ''_'' = (if c = [] then ''pdf'' else c @ ''_pdf'')"
  proof (cases "c = []")
    case True
    then show ?thesis by (simp add: strings_Trim_def)
  next
    case False
    with tr have "hd (c @ ''_pdf'') \<noteq> CHR ''_''" by (simp add: trimmed_def)
    then have "strings_Trim (c @ ''_pdf'') ''_'' = c @ ''_pdf''"
      by (intro strings_Trim_id) simp_all
    with False show ?thesis by simp
  qed
  have "sanitizeStem ?s = removeAll ''_pdf'' (strings_Trim (collapseUnderscores (replaceNonAlnum (getFilename (strings_ToLower ?s)))) ''_'')"
    by (simp add: sanitizeStem_def invalidSubstrings_def removeSubstring_def)
  also have "\<dots> = removeAll ''_pdf'' (if c = [] then ''pdf'' else c @ ''_pdf'')"
    by (simp only: s1 s2 s3 s4 s5)
  also have "\<dots> = (if c = [] then ''pdf'' else removeAll ''_pdf'' c)"
    by (simp add: removeAll_pdf_append occursAt_def)
  finally show ?thesis .
qed

lemma urlToFilename_twice:
  "urlToFilename (urlToFilename x) =
     (if sanitizeStem x = [] then ''pdf.pdf''
      else removeSubstring (sanitizeStem x) ''_pdf'' @ ''.pdf'')"
  using stem_after_pdf[OF sanitizeStem_ok[of x]]
  by (simp add: urlToFilename_stem removeSubstring_def)

text \<open>
  Claim C1 (amended). urlToFilename is a function of its argument, and applying it to
  its own output gives the same output exactly when the sanitised stem (the output
  without its .pdf suffix) is non-empty and contains no occurrence of _pdf. On the
  second pass the appended dot becomes an underscore, so the suffix is read as one more
  _pdf token and removed together with every _pdf left in the stem; an empty stem turns
  into the stem pdf.
\<close>

theorem urlToFilename_idempotent_iff:
  "urlToFilename (urlToFilename x) = urlToFilename x \<longleftrightarrow>
     sanitizeStem x \<noteq> [] \<and> \<not> strings_Contains (sanitizeStem x) ''_pdf''"
proof -
  let ?c = "sanitizeStem x"
  have r: "urlToFilename x = ?c @ ''.pdf''" by (rule urlToFilename_stem)
  have tw: "urlToFilename (?c @ ''.pdf'') =
     (if ?c = [] then ''pdf.pdf'' else removeAll ''_pdf'' ?c @ ''.pdf'')"
    using urlToFilename_twice[of x] by (simp only: r removeSubstring_def)
  show ?thesis
  proof (cases "?c = []")
    case True
    have "urlToFilename (urlToFilename x) = ''pdf.pdf''"
      using urlToFilename_twice[of x] True by simp
    moreover have "urlToFilename x = ''.pdf''" using r True by simp
    ultimately show ?thesis using True by simp
  next
    case False
    have "removeAll ''_pdf'' ?c = ?c \<longleftrightarrow> \<not> strings_Contains ?c ''_pdf''"
      by (simp add: removeAll_id_iff)
    moreover have "urlToFilename (urlToFilename x) = removeAll ''_pdf'' ?c @ ''.pdf''"
      using urlToFilename_twice[of x] False by (simp add: removeSubstring_def)
    ultimately show ?thesis using False r by simp
  qed
qed

theorem urlToFilename_idempotent_iff_witness:
  "urlToFilename (urlToFilename ''/a/Doc.pdf'') = urlToFilename ''/a/Doc.pdf'' \<and>
   sanitizeStem ''/a/Doc.pdf'' = ''doc'' \<and> \<not> strings_Contains ''doc'' ''_pdf''"
  using urlToFilename_idempotent_iff[of "''/a/Doc.pdf''"] by code_simp

text \<open>
  Claim C1 as stated fails on the empty string: it is mapped to .pdf, and .pdf is
  mapped to pdf.pdf. It also fails on a URL whose last segment leaves a _pdf behind
  when the first _pdf is cut out of it: x_p_pdfdf.pdf is mapped to x_pdf.pdf, and that
  to x.pdf.
\<close>

theorem urlToFilename_not_idempotent:
  "urlToFilename (urlToFilename '''') \<noteq> urlToFilename '''' \<and>
   urlToFilename (urlToFilename ''https://www.nclonline.com/docs/x_p_pdfdf.pdf'') \<noteq>
     urlToFilename ''https://www.nclonline.com/docs/x_p_pdfdf.pdf''"
  by code_simp
section \<open>Removing duplicates keeps the first occurrences\<close>

lemma firstOccurrences_Nil: "firstOccurrences [] = []"
  by (simp add: firstOccurrences_def)

lemma firstOccurrences_snoc:
  "firstOccurrences (xs @ [x]) = firstOccurrences xs @ (if x \<in> set xs then [] else [x])"
proof -
  have "map (\<lambda>i. (xs @ [x]) ! i) (filter (\<lambda>i. (xs @ [x]) ! i \<notin> set (take i (xs @ [x]))) [0..<length xs])
        = map (\<lambda>i. xs ! i) (filter (\<lambda>i. xs ! i \<notin> set (take i xs)) [0..<length xs])"
    by (intro map_cong filter_cong) (auto simp: nth_append)
  then show ?thesis by (simp add: firstOccurrences_def)
qed

lemma dedupLoop_spec:
  "\<forall>s. check s = (s \<in> set done) \<Longrightarrow> acc = firstOccurrences done \<Longrightarrow>
   dedupLoop rest check acc = firstOccurrences (done @ rest)"
proof (induction rest arbitrary: check acc "done")
  case Nil
  then show ?case by simp
next
  case (Cons c rest)
  have step: "firstOccurrences (done @ [c]) = firstOccurrences done @ (if c \<in> set done then [] else [c])"
    by (rule firstOccurrences_snoc)
  show ?case
  proof (cases "check c")
    case True
    with Cons.prems have "c \<in> set done" by simp
    with Cons.prems step have "acc = firstOccurrences (done @ [c])" by simp
    moreover from Cons.prems \<open>c \<in> set done\<close> have "\<forall>s. check s = (s \<in> set (done @ [c]))" by auto
    ultimately have "dedupLoop rest check acc = firstOccurrences ((done @ [c]) @ rest)"
      by (rule Cons.IH[rotated])
    with True show ?thesis by simp
  next
    case False
    with Cons.prems have "c \<notin> set done" by simp
    with Cons.prems step have "acc @ [c] = firstOccurrences (done @ [c])" by simp
    moreover from Cons.prems have "\<forall>s. (check(c := True)) s = (s \<in> set (done @ [c]))" by auto
    ultimately have "dedupLoop rest (check(c := True)) (acc @ [c]) = firstOccurrences ((done @ [c]) @ rest)"
      by (rule Cons.IH[rotated])
    with False show ?thesis by simp
  qed
qed

lemma removeDuplicates_eq: "removeDuplicatesFromSlice xs = firstOccurrences xs"
  using dedupLoop_spec[of "\<lambda>_. False" "[]" "[]" xs]
  by (simp add: removeDuplicatesFromSlice_def firstOccurrences_Nil)

lemma set_firstOccurrences: "set (firstOccurrences xs) = set xs"
  by (induction xs rule: rev_induct) (auto simp: firstOccurrences_snoc firstOccurrences_Nil)

lemma distinct_firstOccurrences: "distinct (firstOccurrences xs)"
  by (induction xs rule: rev_induct) (auto simp: firstOccurrences_snoc set_firstOccurrences firstOccurrences_Nil)

lemma subseq_firstOccurrences: "subseq (firstOccurrences xs) xs"
  by (induction xs rule: rev_induct) (auto simp: firstOccurrences_snoc firstOccurrences_Nil intro: list_emb_append_mono)

lemma firstOccurrences_distinct_id: "distinct xs \<Longrightarrow> firstOccurrences xs = xs"
  by (induction xs rule: rev_induct) (auto simp: firstOccurrences_snoc firstOccurrences_Nil)

text \<open>
  Claim C5. removeDuplicatesFromSlice returns the elements at the positions where a
  string occurs for the first time, compared by plain equality of strings, in the order
  of the input: the result is a subsequence of the input, has no duplicates and the same
  elements, and removing duplicates a second time changes nothing.
\<close>

theorem removeDuplicatesFromSlice_first_occurrences:
  "removeDuplicatesFromSlice xs = firstOccurrences xs \<and>
   subseq (removeDuplicatesFromSlice xs) xs \<and>
   distinct (removeDuplicatesFromSlice xs) \<and>
   set (removeDuplicatesFromSlice xs) = set xs \<and>
   removeDuplicatesFromSlice (removeDuplicatesFromSlice xs) = removeDuplicatesFromSlice xs"
  by (simp add: removeDuplicates_eq subseq_firstOccurrences distinct_firstOccurrences
      set_firstOccurrences firstOccurrences_distinct_id)

theorem removeDuplicatesFromSlice_witness:
  "removeDuplicatesFromSlice [''/a.pdf'', ''/A.pdf'', ''/a.pdf'', ''/b%20.pdf'', ''/A.pdf'', ''/b .pdf'']
     = [''/a.pdf'', ''/A.pdf'', ''/b%20.pdf'', ''/b .pdf'']"
  using removeDuplicatesFromSlice_first_occurrences[of "[''/a.pdf'', ''/A.pdf'', ''/a.pdf'', ''/b%20.pdf'', ''/A.pdf'', ''/b .pdf'']"]
  by (simp add: firstOccurrences_def upt_rec)
section \<open>The extractor returns all the occurrences\<close>

lemma pdfClose_nth: "k < 5 \<Longrightarrow> pdfClose ! k = dquote \<Longrightarrow> k = 4"
proof -
  assume "k < 5" and q: "pdfClose ! k = dquote"
  then have "k = 0 \<or> k = 1 \<or> k = 2 \<or> k = 3 \<or> k = 4" by arith
  with q show ?thesis by (elim disjE) (simp_all add: pdfClose_def dquote_def)
qed

lemma hrefOpen_nth: "0 < k \<Longrightarrow> k < 6 \<Longrightarrow> hrefOpen ! k \<noteq> CHR ''.''"
proof -
  assume "0 < k" "k < 6"
  then have "k = 1 \<or> k = 2 \<or> k = 3 \<or> k = 4 \<or> k = 5" by arith
  then show ?thesis by (elim disjE) (simp_all add: hrefOpen_def dquote_def)
qed

lemma length_pdfClose: "length pdfClose = 5"
  by (simp add: pdfClose_def)

lemma length_hrefOpen: "length hrefOpen = 6"
  by (simp add: hrefOpen_def)

lemma dquote_in_pdfClose: "dquote \<in> set pdfClose"
  by (simp add: pdfClose_def)

lemma dquote_in_hrefOpen: "dquote \<in> set hrefOpen"
  by (simp add: hrefOpen_def)

lemma take_in_set: "take n a = xs \<Longrightarrow> set xs \<subseteq> set a"
proof -
  assume "take n a = xs"
  then have "set xs = set (take n a)" by simp
  also have "\<dots> \<subseteq> set a" by (rule set_take_subset)
  finally show ?thesis .
qed

lemma pdfClose_fit:
  assumes nq: "dquote \<notin> set a" and r: "r = [] \<or> hd r = dquote" and t: "take 5 (a @ r) = pdfClose"
  shows "a = ''.pdf'' \<and> r \<noteq> []"
proof (cases "length a < 5")
  case False
  then have "take 5 (a @ r) = take 5 a" by simp
  with t have "take 5 a = pdfClose" by simp
  then have "set pdfClose \<subseteq> set a" by (rule take_in_set)
  with nq dquote_in_pdfClose show ?thesis by blast
next
  case True
  have "length (take 5 (a @ r)) = 5" using t length_pdfClose by simp
  then have len: "5 \<le> length a + length r" by simp
  with True have rne: "r \<noteq> []" by auto
  with r have hd: "hd r = dquote" by simp
  have "take 5 (a @ r) ! length a = (a @ r) ! length a" using True by (rule nth_take)
  also have "\<dots> = hd r" using rne by (simp add: nth_append hd_conv_nth)
  finally have "pdfClose ! length a = dquote" using t hd by simp
  with True have la: "length a = 4" by (rule pdfClose_nth)
  have "take 4 pdfClose = take 4 (take 5 (a @ r))" by (simp only: t)
  also have "\<dots> = take 4 (a @ r)" by (simp only: take_take) simp
  also have "\<dots> = a" using la by simp
  finally have "a = take 4 pdfClose" by simp
  then have "a = ''.pdf''" by (simp add: pdfClose_def)
  with rne show ?thesis by simp
qed

lemma hrefOpen_no_fit:
  assumes nq: "dquote \<notin> set a" and ne: "a \<noteq> []"
  shows "take 6 (a @ CHR ''.'' # r) \<noteq> hrefOpen"
proof
  assume t: "take 6 (a @ CHR ''.'' # r) = hrefOpen"
  show False
  proof (cases "length a < 6")
    case False
    then have "take 6 (a @ CHR ''.'' # r) = take 6 a" by simp
    with t have "take 6 a = hrefOpen" by simp
    then have "set hrefOpen \<subseteq> set a" by (rule take_in_set)
    with nq dquote_in_hrefOpen show False by blast
  next
    case True
    have "take 6 (a @ CHR ''.'' # r) ! length a = (a @ CHR ''.'' # r) ! length a" using True by (rule nth_take)
    also have "\<dots> = CHR ''.''" by simp
    finally have "hrefOpen ! length a = CHR ''.''" using t by simp
    moreover have "0 < length a" using ne by simp
    ultimately show False using hrefOpen_nth[of "length a"] True by simp
  qed
qed

lemma quoteFree_split: "u = quoteFree u @ dropWhile (\<lambda>c. c \<noteq> dquote) u"
  by (simp add: quoteFree_def)

lemma quoteFree_no_quote: "dquote \<notin> set (quoteFree u)"
  unfolding quoteFree_def by (auto dest: set_takeWhileD)

lemma rest_quote:
  "dropWhile (\<lambda>c. c \<noteq> dquote) u = [] \<or> hd (dropWhile (\<lambda>c. c \<noteq> dquote) u) = dquote"
  using hd_dropWhile[of "\<lambda>c. c \<noteq> dquote" u] by auto

lemma drop_quoteFree:
  "k \<le> length (quoteFree u) \<Longrightarrow>
   drop k u = drop k (quoteFree u) @ dropWhile (\<lambda>c. c \<noteq> dquote) u"
proof -
  assume k: "k \<le> length (quoteFree u)"
  have "drop k u = drop k (quoteFree u @ dropWhile (\<lambda>c. c \<noteq> dquote) u)"
    using quoteFree_split[of u] by simp
  also have "\<dots> = drop k (quoteFree u) @ dropWhile (\<lambda>c. c \<noteq> dquote) u"
    using k by simp
  finally show ?thesis .
qed

lemma take_quoteFree: "take (length (quoteFree u)) u = quoteFree u"
proof -
  have "take (length (quoteFree u)) (quoteFree u @ dropWhile (\<lambda>c. c \<noteq> dquote) u) = quoteFree u"
    by simp
  then show ?thesis using quoteFree_split[of u] by simp
qed

lemma pdfClose_at:
  assumes k: "k \<le> length (quoteFree u)" and t: "take 5 (drop k u) = pdfClose"
  shows "k + 4 = length (quoteFree u)"
proof -
  let ?r = "dropWhile (\<lambda>c. c \<noteq> dquote) u"
  have "dquote \<notin> set (drop k (quoteFree u))"
    using quoteFree_no_quote[of u] by (auto dest: in_set_dropD)
  moreover have "take 5 (drop k (quoteFree u) @ ?r) = pdfClose"
    using t drop_quoteFree[OF k] by simp
  ultimately have "drop k (quoteFree u) = ''.pdf'' \<and> ?r \<noteq> []"
    using rest_quote[of u] by (intro pdfClose_fit)
  then have "length (drop k (quoteFree u)) = 4" by simp
  then show ?thesis by simp
qed

lemma backtrack_eq:
  "k \<le> length (quoteFree u) \<Longrightarrow>
   backtrack k u =
     (if 5 \<le> length (quoteFree u) \<and> length (quoteFree u) - 4 \<le> k \<and>
         take 5 (drop (length (quoteFree u) - 4) u) = pdfClose
      then Some (quoteFree u, length (quoteFree u) + 7) else None)"
proof (induction k)
  case 0
  show ?case by simp
next
  case (Suc k)
  let ?m = "length (quoteFree u)"
  show ?case
  proof (cases "take 5 (drop (Suc k) u) = pdfClose")
    case True
    from pdfClose_at[OF Suc.prems True] have m: "Suc k + 4 = ?m" .
    then have mk: "?m - 4 = Suc k" by simp
    have "take (Suc k + 4) u = quoteFree u" using m take_quoteFree[of u] by simp
    moreover have "6 + Suc k + 5 = ?m + 7" using m by simp
    ultimately have b: "backtrack (Suc k) u = Some (quoteFree u, ?m + 7)"
      using True by simp
    have "take 5 (drop (?m - 4) u) = pdfClose" using True by (simp only: mk)
    moreover have "5 \<le> ?m" using m by simp
    moreover have "?m - 4 \<le> Suc k" using mk by simp
    ultimately have c: "5 \<le> ?m \<and> ?m - 4 \<le> Suc k \<and> take 5 (drop (?m - 4) u) = pdfClose"
      by simp
    show ?thesis by (simp only: b c if_True simp_thms)
  next
    case False
    then have "backtrack (Suc k) u = backtrack k u" by simp
    also have "\<dots> = (if 5 \<le> ?m \<and> ?m - 4 \<le> k \<and> take 5 (drop (?m - 4) u) = pdfClose
                       then Some (quoteFree u, ?m + 7) else None)"
      using Suc by simp
    also have "\<dots> = (if 5 \<le> ?m \<and> ?m - 4 \<le> Suc k \<and> take 5 (drop (?m - 4) u) = pdfClose
                       then Some (quoteFree u, ?m + 7) else None)"
    proof (cases "?m - 4 = Suc k")
      case True
      with False show ?thesis by simp
    next
      case False
      then have "(?m - 4 \<le> k) = (?m - 4 \<le> Suc k)" by arith
      then show ?thesis by simp
    qed
    finally show ?thesis .
  qed
qed

lemma hrefValue_quoteFree: "hrefValue t = quoteFree (drop 6 t)"
  by (simp add: hrefValue_def quoteFree_def)

lemma pdfClose_cond:
  assumes m: "5 \<le> length (quoteFree u)"
  shows "take 5 (drop (length (quoteFree u) - 4) u) = pdfClose \<longleftrightarrow>
         take 1 (drop (length (quoteFree u)) u) = [dquote] \<and>
         drop (length (quoteFree u) - 4) (quoteFree u) = ''.pdf''"
proof -
  let ?m = "length (quoteFree u)"
  let ?r = "dropWhile (\<lambda>c. c \<noteq> dquote) u"
  let ?x = "drop (?m - 4) (quoteFree u)"
  have lx: "length ?x = 4" using m by simp
  have d1: "drop (?m - 4) u = ?x @ ?r" by (rule drop_quoteFree) simp
  have d2: "drop ?m u = ?r" using drop_quoteFree[of ?m u] by simp
  have "take 5 (?x @ ?r) = ?x @ take 1 ?r" using lx by simp
  then have "take 5 (drop (?m - 4) u) = pdfClose \<longleftrightarrow> ?x @ take 1 ?r = ''.pdf'' @ [dquote]"
    using d1 by (simp add: pdfClose_def)
  also have "\<dots> \<longleftrightarrow> ?x = ''.pdf'' \<and> take 1 ?r = [dquote]"
    using lx by (intro append_eq_append_conv) simp
  finally show ?thesis using d2 by auto
qed

lemma matchHere_eq:
  "matchHere t = (if pdfHrefHere 5 t then Some (hrefValue t, length (hrefValue t) + 7) else None)"
proof (cases "take 6 t = hrefOpen")
  case False
  then show ?thesis by (simp add: matchHere_def pdfHrefHere_def)
next
  case True
  let ?u = "drop 6 t"
  let ?m = "length (quoteFree ?u)"
  have "matchHere t = backtrack ?m ?u" using True by (simp add: matchHere_def quoteFree_def)
  also have "\<dots> = (if 5 \<le> ?m \<and> take 5 (drop (?m - 4) ?u) = pdfClose
                     then Some (quoteFree ?u, ?m + 7) else None)"
    using backtrack_eq[of ?m ?u] by simp
  also have "\<dots> = (if pdfHrefHere 5 t then Some (hrefValue t, length (hrefValue t) + 7) else None)"
  proof (cases "5 \<le> ?m")
    case False
    then show ?thesis by (simp add: pdfHrefHere_def hrefValue_quoteFree)
  next
    case m: True
    have "drop (6 + ?m) t = drop ?m ?u" by (simp add: add.commute)
    with pdfClose_cond[OF m] True m show ?thesis
      by (simp add: pdfHrefHere_def hrefValue_quoteFree)
  qed
  finally show ?thesis .
qed

lemma hrefOpen_hd: "take 6 x = hrefOpen \<Longrightarrow> x \<noteq> [] \<and> hd x = CHR ''h''"
  by (cases x) (auto simp: hrefOpen_def)

lemma hrefOpen_nth_h: "0 < k \<Longrightarrow> k < 6 \<Longrightarrow> hrefOpen ! k \<noteq> CHR ''h''"
proof -
  assume "0 < k" "k < 6"
  then have "k = 1 \<or> k = 2 \<or> k = 3 \<or> k = 4 \<or> k = 5" by arith
  then show ?thesis by (elim disjE) (simp_all add: hrefOpen_def dquote_def)
qed

lemma pdfClose_nth_h: "k < 5 \<Longrightarrow> pdfClose ! k \<noteq> CHR ''h''"
proof -
  assume "k < 5"
  then have "k = 0 \<or> k = 1 \<or> k = 2 \<or> k = 3 \<or> k = 4" by arith
  then show ?thesis by (elim disjE) (simp_all add: pdfClose_def dquote_def)
qed

lemma hd_drop_append: "k < length xs \<Longrightarrow> hd (drop k (xs @ ys)) = xs ! k"
  by (simp add: hd_drop_conv_nth nth_append)

lemma pdfHref_decomp:
  assumes "pdfHrefHere 5 t"
  shows "\<exists>w rest. t = hrefOpen @ w @ pdfClose @ rest \<and> w \<noteq> [] \<and> dquote \<notin> set w \<and>
           hrefValue t = w @ ''.pdf''"
proof -
  let ?u = "drop 6 t"
  let ?v = "quoteFree ?u"
  let ?r = "dropWhile (\<lambda>c. c \<noteq> dquote) ?u"
  let ?w = "take (length ?v - 4) ?v"
  from assms have h: "take 6 t = hrefOpen"
    and q: "take 1 (drop (6 + length ?v) t) = [dquote]"
    and m: "5 \<le> length ?v"
    and p: "drop (length ?v - 4) ?v = ''.pdf''"
    by (simp_all add: pdfHrefHere_def hrefValue_quoteFree)
  have "drop (6 + length ?v) t = drop (length ?v) ?u" by (simp add: add.commute)
  also have "\<dots> = ?r" using drop_quoteFree[of "length ?v" ?u] by simp
  finally have "take 1 ?r = [dquote]" using q by simp
  then have r: "?r = dquote # tl ?r" by (cases ?r) auto
  have v: "?v = ?w @ ''.pdf''" using p append_take_drop_id[of "length ?v - 4" ?v] by simp
  have "t = take 6 t @ ?u" by simp
  also have "\<dots> = hrefOpen @ ?v @ ?r" using h quoteFree_split[of ?u] by simp
  also have "\<dots> = hrefOpen @ (?w @ ''.pdf'') @ (dquote # tl ?r)" using v r by simp
  also have "\<dots> = hrefOpen @ ?w @ pdfClose @ tl ?r" by (simp add: pdfClose_def)
  finally have t: "t = hrefOpen @ ?w @ pdfClose @ tl ?r" .
  have "length ?w = length ?v - 4" by simp
  with m have wne: "?w \<noteq> []" by auto
  have "set ?w \<subseteq> set ?v" by (rule set_take_subset)
  with quoteFree_no_quote[of ?u] have nq: "dquote \<notin> set ?w" by auto
  from t wne nq v show ?thesis unfolding hrefValue_quoteFree by blast
qed

lemma no_overlap_decomp:
  assumes w: "w \<noteq> []" and nq: "dquote \<notin> set w" and j: "0 < j" "j < length w + 11"
  shows "take 6 (drop j (hrefOpen @ w @ pdfClose @ rest)) \<noteq> hrefOpen"
proof
  let ?t = "hrefOpen @ w @ pdfClose @ rest"
  assume a: "take 6 (drop j ?t) = hrefOpen"
  then have hd: "hd (drop j ?t) = CHR ''h''" using hrefOpen_hd by blast
  consider "j < 6" | "6 \<le> j" "j < 6 + length w" | "6 + length w \<le> j" by arith
  then show False
  proof cases
    case 1
    then have "hd (drop j ?t) = hrefOpen ! j" by (simp only: hd_drop_append length_hrefOpen)
    with hd hrefOpen_nth_h[OF j(1) 1] show False by simp
  next
    case 2
    let ?a = "drop (j - 6) w"
    have d: "drop j ?t = ?a @ pdfClose @ rest" using 2 by (simp add: length_hrefOpen)
    have ne: "?a \<noteq> []" using 2 by simp
    have "set ?a \<subseteq> set w" by (rule set_drop_subset)
    with nq have "dquote \<notin> set ?a" by auto
    then have "take 6 (?a @ CHR ''.'' # (''pdf'' @ [dquote] @ rest)) \<noteq> hrefOpen"
      using ne by (rule hrefOpen_no_fit)
    moreover from a have "take 6 (?a @ pdfClose @ rest) = hrefOpen" by (simp only: d)
    ultimately show False by (simp add: pdfClose_def)
  next
    case 3
    let ?k = "j - 6 - length w"
    have k: "?k < 5" using 3 j(2) by arith
    have "drop j ?t = drop ?k (pdfClose @ rest)" using 3 by (simp add: length_hrefOpen)
    then have "hd (drop j ?t) = pdfClose ! ?k" using k by (simp only: hd_drop_append length_pdfClose)
    with hd pdfClose_nth_h[OF k] show False by simp
  qed
qed

lemma no_overlap:
  assumes p: "pdfHrefHere 5 t" and j: "0 < j" "j < length (hrefValue t) + 7"
  shows "\<not> pdfHrefHere n (drop j t)"
proof -
  from pdfHref_decomp[OF p] obtain w rest where
    t: "t = hrefOpen @ w @ pdfClose @ rest" and w: "w \<noteq> []" and nq: "dquote \<notin> set w"
    and v: "hrefValue t = w @ ''.pdf''" by blast
  from j(2) v have "j < length w + 11" by simp
  from no_overlap_decomp[OF w nq j(1) this, of rest] t
  have "take 6 (drop j t) \<noteq> hrefOpen" by simp
  then show ?thesis by (simp add: pdfHrefHere_def)
qed

lemma pdfHrefHere_Nil: "\<not> pdfHrefHere n []"
  by (simp add: pdfHrefHere_def hrefOpen_def)

lemma pdfHrefs_scan: "pdfHrefs n s = hrefScan n s"
proof (induction s)
  case Nil
  show ?case by (simp add: pdfHrefs_def)
next
  case (Cons c cs)
  have "[0..<length (c # cs)] = 0 # map Suc [0..<length cs]"
    by (simp add: upt_conv_Cons map_Suc_upt del: upt_Suc)
  then have "pdfHrefs n (c # cs) =
      (if pdfHrefHere n (c # cs) then [hrefValue (c # cs)] else []) @ pdfHrefs n cs"
    by (simp add: pdfHrefs_def filter_map comp_def del: upt_Suc)
  with Cons show ?case by simp
qed

lemma hrefScan_skip:
  "\<forall>j<k. \<not> pdfHrefHere n (drop j u) \<Longrightarrow> hrefScan n u = hrefScan n (drop k u)"
proof (induction k arbitrary: u)
  case 0
  show ?case by simp
next
  case (Suc k)
  show ?case
  proof (cases u)
    case Nil
    then show ?thesis by simp
  next
    case (Cons c cs)
    from Suc.prems have "\<not> pdfHrefHere n (drop 0 u)" by blast
    then have a: "hrefScan n u = hrefScan n cs" using Cons by simp
    have "\<forall>j<k. \<not> pdfHrefHere n (drop j cs)"
    proof (intro allI impI)
      fix j assume "j < k"
      then have "\<not> pdfHrefHere n (drop (Suc j) u)" using Suc.prems by simp
      then show "\<not> pdfHrefHere n (drop j cs)" using Cons by simp
    qed
    then have "hrefScan n cs = hrefScan n (drop k cs)" by (rule Suc.IH)
    with a Cons show ?thesis by simp
  qed
qed

lemma extract_loop:
  "foldl (\<lambda>pdfURLs match. if length match > 1 then pdfURLs @ [match ! 1] else pdfURLs)
     acc (findAllStringSubmatch t) = acc @ hrefScan 5 t"
proof (induction t arbitrary: acc rule: length_induct)
  case (1 t)
  show ?case
  proof (cases t)
    case Nil
    then show ?thesis by simp
  next
    case (Cons c cs)
    show ?thesis
    proof (cases "pdfHrefHere 5 t")
      case False
      then have f: "findAllStringSubmatch t = findAllStringSubmatch cs"
        using Cons by (simp add: matchHere_eq)
      have "length cs < length t" using Cons by simp
      with 1 have "foldl (\<lambda>pdfURLs match. if length match > 1 then pdfURLs @ [match ! 1] else pdfURLs)
          acc (findAllStringSubmatch cs) = acc @ hrefScan 5 cs" by blast
      with f False Cons show ?thesis by simp
    next
      case True
      let ?v = "hrefValue t"
      let ?n = "length ?v + 7"
      have f: "findAllStringSubmatch t = [take ?n t, ?v] # findAllStringSubmatch (drop (?n - 1) cs)"
        using Cons True by (simp add: matchHere_eq)
      have "length (drop (?n - 1) cs) < length t" using Cons by simp
      with 1 have ih: "foldl (\<lambda>pdfURLs match. if length match > 1 then pdfURLs @ [match ! 1] else pdfURLs)
          (acc @ [?v]) (findAllStringSubmatch (drop (?n - 1) cs)) = (acc @ [?v]) @ hrefScan 5 (drop (?n - 1) cs)"
        by blast
      have "\<forall>j<?n - 1. \<not> pdfHrefHere 5 (drop j cs)"
      proof (intro allI impI)
        fix j assume "j < ?n - 1"
        then have "\<not> pdfHrefHere 5 (drop (Suc j) t)" by (intro no_overlap[OF True]) simp_all
        then show "\<not> pdfHrefHere 5 (drop j cs)" using Cons by simp
      qed
      then have "hrefScan 5 cs = hrefScan 5 (drop (?n - 1) cs)" by (rule hrefScan_skip)
      then have "hrefScan 5 t = ?v # hrefScan 5 (drop (?n - 1) cs)" using Cons True by simp
      with f ih show ?thesis by simp
    qed
  qed
qed

text \<open>
  Claim C3 (amended). For every text, extractPDFUrls returns exactly the values of all
  occurrences of href="value", in the order of their positions, where the value holds
  no double quote, ends in .pdf and has at least one character before that suffix
  (\<open>pdfHrefs 5\<close>: five characters at least). Nothing else is returned, the empty
  text gives the empty sequence, and there is no error result.
\<close>

theorem extractPDFUrls_all_occurrences:
  "extractPDFUrls s = pdfHrefs 5 s \<and> extractPDFUrls [] = []"
proof -
  have "extractPDFUrls s = pdfHrefs 5 s" for s
    unfolding extractPDFUrls_def extract_loop pdfHrefs_scan by simp
  then show ?thesis by (simp add: pdfHrefs_def)
qed

theorem extractPDFUrls_witness:
  "extractPDFUrls (''<a '' @ hrefOpen @ ''/docs/a.pdf'' @ [dquote] @ ''>'') = [''/docs/a.pdf''] \<and>
   pdfHrefs 5 (''<a '' @ hrefOpen @ ''/docs/a.pdf'' @ [dquote] @ ''>'') = [''/docs/a.pdf'']"
  using extractPDFUrls_all_occurrences[of "''<a '' @ hrefOpen @ ''/docs/a.pdf'' @ [dquote] @ ''>''"]
  by code_simp

text \<open>
  Claim C3 as stated counts every value that ends in .pdf (\<open>pdfHrefs 4\<close>). The
  value .pdf alone is such a value, and the regular expression does not match it.
\<close>

theorem extractPDFUrls_bare_suffix:
  "extractPDFUrls (hrefOpen @ ''.pdf'' @ [dquote]) = [] \<and>
   pdfHrefs 4 (hrefOpen @ ''.pdf'' @ [dquote]) = [''.pdf'']"
  by code_simp
section \<open>The download engine\<close>

lemma urlToFilename_lower: "strings_ToLower (urlToFilename x) = urlToFilename x"
proof -
  have "list_all safeChar (sanitizeStem x)" by (rule sanitizeStem_safe)
  then have "list_all (\<lambda>c. isAscii c \<and> \<not> isUpper c) (sanitizeStem x @ ''.pdf'')"
    using safeChar_ascii by (auto simp: list_all_iff isAscii_def isUpper_def byte_def)
  then show ?thesis by (simp only: urlToFilename_stem strings_ToLower_id)
qed

lemma downloadPDF_skip:
  assumes "fileExists (fs w) (targetPath outputDir finalURL)"
  shows "downloadPDF e finalURL outputDir w =
           (False, logPrint (LogFileExists (targetPath outputDir finalURL)) w)"
  using assms by (simp add: downloadPDF_def urlToFilename_lower targetPath_def)

lemma downloadPDF_frame:
  "q \<noteq> targetPath outputDir finalURL \<Longrightarrow>
   fs (snd (downloadPDF e finalURL outputDir w)) q = fs w q"
  by (auto simp: downloadPDF_def urlToFilename_lower targetPath_def logPrint_def Let_def os_Create_def
           split: getResult.splits option.splits if_splits)

lemma downloadPDF_success:
  assumes "fst (downloadPDF e finalURL outputDir w)"
  shows "\<exists>resp. httpGet e finalURL = Got resp \<and> body resp \<noteq> [] \<and>
           fs w (targetPath outputDir finalURL) = None \<and>
           fs (snd (downloadPDF e finalURL outputDir w)) =
             (fs w)(targetPath outputDir finalURL \<mapsto> File (body resp))"
proof -
  let ?p = "targetPath outputDir finalURL"
  from assms have ne: "\<not> fileExists (fs w) ?p"
    by (auto simp: downloadPDF_skip)
  from assms obtain resp where g: "httpGet e finalURL = Got resp"
    using ne by (cases "httpGet e finalURL")
      (auto simp: downloadPDF_def urlToFilename_lower targetPath_def Let_def)
  from assms ne g have b: "body resp \<noteq> []" and c: "os_Create e (fs w) ?p \<noteq> None"
    by (auto simp: downloadPDF_def urlToFilename_lower targetPath_def Let_def
             split: if_splits option.splits)
  from c have nd: "fs w ?p \<noteq> Some Dir" by (auto simp: os_Create_def split: if_splits)
  from ne nd have none: "fs w ?p = None"
    by (cases "fs w ?p") (auto simp: fileExists_def split: node.splits)
  from assms ne g have "fs (snd (downloadPDF e finalURL outputDir w)) = (fs w)(?p \<mapsto> File (body resp))"
    by (auto simp: downloadPDF_def urlToFilename_lower targetPath_def Let_def os_Create_def logPrint_def
             split: if_splits option.splits)
  with g b none show ?thesis by blast
qed

text \<open>
  Claim C6. When a file exists at the target path, downloadPDF returns false (skipped)
  without sending a request and without changing the file system; it only logs the skip.
\<close>

theorem downloadPDF_skips_existing:
  assumes "fileExists (fs w) (filepath_Join [outputDir, urlToFilename finalURL])"
  shows "fst (downloadPDF e finalURL outputDir w) = False \<and>
         requests (snd (downloadPDF e finalURL outputDir w)) = requests w \<and>
         fs (snd (downloadPDF e finalURL outputDir w)) = fs w \<and>
         logs (snd (downloadPDF e finalURL outputDir w)) =
           logs w @ [LogFileExists (filepath_Join [outputDir, urlToFilename finalURL])]"
  using assms downloadPDF_skip[of w outputDir finalURL e]
  by (simp add: targetPath_def logPrint_def)

text \<open>
  Claim C7. When the request is answered and the Content-Type contains neither
  application/pdf nor binary/octet-stream (whatever the status), or the status is 200
  and the body has no bytes, downloadPDF returns false, leaves the file system as it
  was and logs the reason. The function returns normally, so the caller goes on.
\<close>

theorem downloadPDF_rejects:
  assumes "httpGet e finalURL = Got resp"
    and "\<not> fileExists (fs w) (filepath_Join [outputDir, urlToFilename finalURL])"
    and "(\<not> strings_Contains (contentType resp) ''application/pdf'' \<and>
          \<not> strings_Contains (contentType resp) ''binary/octet-stream'') \<or>
         (statusCode resp = 200 \<and> body resp = [])"
  shows "fst (downloadPDF e finalURL outputDir w) = False \<and>
         fs (snd (downloadPDF e finalURL outputDir w)) = fs w \<and>
         logs (snd (downloadPDF e finalURL outputDir w)) = logs w @
           [if statusCode resp \<noteq> 200 then LogBadStatus finalURL (status resp)
            else if \<not> strings_Contains (contentType resp) ''binary/octet-stream'' \<and>
                    \<not> strings_Contains (contentType resp) ''application/pdf''
            then LogInvalidContentType finalURL (contentType resp)
            else if readError resp then LogReadFailed finalURL
            else LogZeroBytes finalURL]"
  using assms
  by (auto simp: downloadPDF_def urlToFilename_lower Let_def logPrint_def)

text \<open>
  Claim C10. downloadPDF never overwrites an existing file: with a file at the target
  path the file system is unchanged. A call that returns true has created one new file,
  at filepath.Join(outputDir, urlToFilename(finalURL)), where nothing was before, with
  the body of the response as its contents. No call changes any other path.
\<close>

theorem downloadPDF_writes_once:
  "(fileExists (fs w) (filepath_Join [outputDir, urlToFilename finalURL]) \<longrightarrow>
      fs (snd (downloadPDF e finalURL outputDir w)) = fs w) \<and>
   (fst (downloadPDF e finalURL outputDir w) \<longrightarrow>
      fs w (filepath_Join [outputDir, urlToFilename finalURL]) = None \<and>
      (\<exists>resp. httpGet e finalURL = Got resp \<and> body resp \<noteq> [] \<and>
         fs (snd (downloadPDF e finalURL outputDir w)) =
           (fs w)(filepath_Join [outputDir, urlToFilename finalURL] \<mapsto> File (body resp)))) \<and>
   (\<forall>q. q \<noteq> filepath_Join [outputDir, urlToFilename finalURL] \<longrightarrow>
      fs (snd (downloadPDF e finalURL outputDir w)) q = fs w q)"
proof (intro conjI impI allI)
  assume "fileExists (fs w) (filepath_Join [outputDir, urlToFilename finalURL])"
  then show "fs (snd (downloadPDF e finalURL outputDir w)) = fs w"
    using downloadPDF_skip[of w outputDir finalURL e] by (simp add: targetPath_def logPrint_def)
next
  assume a: "fst (downloadPDF e finalURL outputDir w)"
  from downloadPDF_success[OF a]
  show "fs w (filepath_Join [outputDir, urlToFilename finalURL]) = None"
    by (auto simp: targetPath_def)
  from downloadPDF_success[OF a]
  show "\<exists>resp. httpGet e finalURL = Got resp \<and> body resp \<noteq> [] \<and>
         fs (snd (downloadPDF e finalURL outputDir w)) =
           (fs w)(filepath_Join [outputDir, urlToFilename finalURL] \<mapsto> File (body resp))"
    by (auto simp: targetPath_def)
next
  fix q assume "q \<noteq> filepath_Join [outputDir, urlToFilename finalURL]"
  then show "fs (snd (downloadPDF e finalURL outputDir w)) q = fs w q"
    using downloadPDF_frame[of q outputDir finalURL e w] by (simp add: targetPath_def)
qed

theorem downloadPDF_skips_existing_witness:
  "fileExists (fs worldWithDoc) (filepath_Join [''PDFs/'', urlToFilename ''https://www.nclonline.com/a/doc.pdf'']) \<and>
   fst (downloadPDF (serverEnv okResponse) ''https://www.nclonline.com/a/doc.pdf'' ''PDFs/'' worldWithDoc) = False \<and>
   requests (snd (downloadPDF (serverEnv okResponse) ''https://www.nclonline.com/a/doc.pdf'' ''PDFs/'' worldWithDoc)) = []"
proof -
  have h: "fileExists (fs worldWithDoc) (filepath_Join [''PDFs/'', urlToFilename ''https://www.nclonline.com/a/doc.pdf''])"
    by code_simp
  have r: "requests worldWithDoc = []" by (simp add: worldWithDoc_def)
  from downloadPDF_skips_existing[OF h, of "serverEnv okResponse"] h r show ?thesis by simp
qed

theorem downloadPDF_rejects_witness:
  "httpGet (serverEnv htmlResponse) ''https://www.nclonline.com/a/doc.pdf'' = Got htmlResponse \<and>
   \<not> fileExists (fs emptyWorld) (filepath_Join [''PDFs/'', urlToFilename ''https://www.nclonline.com/a/doc.pdf'']) \<and>
   \<not> strings_Contains (contentType htmlResponse) ''application/pdf'' \<and>
   \<not> strings_Contains (contentType htmlResponse) ''binary/octet-stream'' \<and>
   fst (downloadPDF (serverEnv htmlResponse) ''https://www.nclonline.com/a/doc.pdf'' ''PDFs/'' emptyWorld) = False \<and>
   fs (snd (downloadPDF (serverEnv htmlResponse) ''https://www.nclonline.com/a/doc.pdf'' ''PDFs/'' emptyWorld)) = Map.empty \<and>
   logs (snd (downloadPDF (serverEnv htmlResponse) ''https://www.nclonline.com/a/doc.pdf'' ''PDFs/'' emptyWorld)) =
     [LogInvalidContentType ''https://www.nclonline.com/a/doc.pdf'' ''text/html''] \<and>
   httpGet (serverEnv emptyResponse) ''https://www.nclonline.com/a/doc.pdf'' = Got emptyResponse \<and>
   statusCode emptyResponse = 200 \<and> body emptyResponse = [] \<and>
   fst (downloadPDF (serverEnv emptyResponse) ''https://www.nclonline.com/a/doc.pdf'' ''PDFs/'' emptyWorld) = False \<and>
   fs (snd (downloadPDF (serverEnv emptyResponse) ''https://www.nclonline.com/a/doc.pdf'' ''PDFs/'' emptyWorld)) = Map.empty \<and>
   logs (snd (downloadPDF (serverEnv emptyResponse) ''https://www.nclonline.com/a/doc.pdf'' ''PDFs/'' emptyWorld)) =
     [LogZeroBytes ''https://www.nclonline.com/a/doc.pdf'']"
proof -
  let ?u = "''https://www.nclonline.com/a/doc.pdf''"
  have n: "\<not> fileExists (fs emptyWorld) (filepath_Join [''PDFs/'', urlToFilename ?u])"
    by (simp add: emptyWorld_def fileExists_def)
  have w: "fs emptyWorld = Map.empty" "logs emptyWorld = []" by (simp_all add: emptyWorld_def)
  have g: "httpGet (serverEnv htmlResponse) ?u = Got htmlResponse"
    by (simp add: serverEnv_def)
  have c1: "\<not> strings_Contains (contentType htmlResponse) ''application/pdf''" by code_simp
  have c2: "\<not> strings_Contains (contentType htmlResponse) ''binary/octet-stream''" by code_simp
  have d: "(\<not> strings_Contains (contentType htmlResponse) ''application/pdf'' \<and>
            \<not> strings_Contains (contentType htmlResponse) ''binary/octet-stream'') \<or>
           (statusCode htmlResponse = 200 \<and> body htmlResponse = [])"
    using c1 c2 by simp
  have s: "statusCode htmlResponse = 200" "contentType htmlResponse = ''text/html''"
    by (simp_all add: htmlResponse_def)
  have g': "httpGet (serverEnv emptyResponse) ?u = Got emptyResponse"
    by (simp add: serverEnv_def)
  have s': "statusCode emptyResponse = 200" "body emptyResponse = []" "\<not> readError emptyResponse"
    by (simp_all add: emptyResponse_def)
  have d': "(\<not> strings_Contains (contentType emptyResponse) ''application/pdf'' \<and>
            \<not> strings_Contains (contentType emptyResponse) ''binary/octet-stream'') \<or>
           (statusCode emptyResponse = 200 \<and> body emptyResponse = [])"
    using s' by simp
  have c': "strings_Contains (contentType emptyResponse) ''application/pdf''" by code_simp
  from downloadPDF_rejects[OF g n d] downloadPDF_rejects[OF g' n d'] g n c1 c2 s w g' s' c'
  show ?thesis by simp
qed

theorem downloadPDF_writes_once_witness:
  "fst (downloadPDF (serverEnv okResponse) ''https://www.nclonline.com/a/doc.pdf'' ''PDFs/'' emptyWorld) \<and>
   filepath_Join [''PDFs/'', urlToFilename ''https://www.nclonline.com/a/doc.pdf''] = ''PDFs/doc.pdf'' \<and>
   fs (snd (downloadPDF (serverEnv okResponse) ''https://www.nclonline.com/a/doc.pdf'' ''PDFs/'' emptyWorld)) =
     [''PDFs/doc.pdf'' \<mapsto> File ''%PDF-1.4''] \<and>
   fileExists (fs worldWithDoc) (filepath_Join [''PDFs/'', urlToFilename ''https://www.nclonline.com/a/doc.pdf'']) \<and>
   fs (snd (downloadPDF (serverEnv okResponse) ''https://www.nclonline.com/a/doc.pdf'' ''PDFs/'' worldWithDoc)) =
     fs worldWithDoc"
proof -
  let ?u = "''https://www.nclonline.com/a/doc.pdf''"
  have a: "fst (downloadPDF (serverEnv okResponse) ?u ''PDFs/'' emptyWorld)" by code_simp
  have p: "filepath_Join [''PDFs/'', urlToFilename ?u] = ''PDFs/doc.pdf''" by code_simp
  have h: "fileExists (fs worldWithDoc) (filepath_Join [''PDFs/'', urlToFilename ?u])" by code_simp
  have g: "httpGet (serverEnv okResponse) ?u = Got okResponse" by (simp add: serverEnv_def)
  have b: "body okResponse = ''%PDF-1.4''" by (simp add: okResponse_def)
  have w: "fs emptyWorld = Map.empty" by (simp add: emptyWorld_def)
  from downloadPDF_writes_once[of emptyWorld "''PDFs/''" ?u "serverEnv okResponse"] a g b w
  have "fs (snd (downloadPDF (serverEnv okResponse) ?u ''PDFs/'' emptyWorld)) =
          [''PDFs/doc.pdf'' \<mapsto> File ''%PDF-1.4'']"
    by (auto simp: p)
  moreover from downloadPDF_writes_once[of worldWithDoc "''PDFs/''" ?u "serverEnv okResponse"] h
  have "fs (snd (downloadPDF (serverEnv okResponse) ?u ''PDFs/'' worldWithDoc)) = fs worldWithDoc"
    by blast
  ultimately show ?thesis using a p h by simp
qed
section \<open>URLs with the same last segment\<close>

lemma runeWidth_le: "runeWidth (x # xs) \<le> length (x # xs) \<and> 1 \<le> runeWidth (x # xs)"
  by (auto simp: Let_def split: list.splits)

lemma ascii_not_cont: "isAscii c \<Longrightarrow> \<not> isCont c \<and> \<not> secondOk b c"
  by (auto simp: isAscii_def isCont_def secondOk_def)

lemma runeWidth_append_ascii:
  assumes "isAscii c"
  shows "runeWidth (x # xs @ c # b) = runeWidth (x # xs)"
proof -
  from assms have nc: "\<not> isCont c" "\<And>b. \<not> secondOk b c" using ascii_not_cont by auto
  consider "xs = []" | y where "xs = [y]" | y z where "xs = [y, z]" | y z u r where "xs = y # z # u # r"
    by (cases xs; cases "tl xs"; cases "tl (tl xs)") auto
  then show ?thesis
    by cases (auto simp: Let_def nc split: list.splits)
qed

lemma asciiLower_slash: "asciiLower c = CHR ''/'' \<longleftrightarrow> c = CHR ''/''"
proof (cases "isUpper c")
  case False
  then show ?thesis by (simp add: asciiLower_def)
next
  case True
  then have b: "65 \<le> byte c" "byte c \<le> 90" by (simp_all add: isUpper_def)
  then have o: "of_char (char_of (byte c + 32) :: char) = byte c + 32" by simp
  have "char_of (byte c + 32) \<noteq> CHR ''/''"
  proof
    assume "char_of (byte c + 32) = CHR ''/''"
    then have "(of_char (char_of (byte c + 32) :: char) :: nat) = of_char (CHR ''/'')" by simp
    with o have "byte c + 32 = 47" by simp
    with b show False by simp
  qed
  moreover have "c \<noteq> CHR ''/''" using b by (auto simp: byte_def)
  ultimately show ?thesis using True by (simp add: asciiLower_def)
qed

lemma lowerRune_cases:
  "lowerRune r = [CHR 0xEF, CHR 0xBF, CHR 0xBD] \<or>
   lowerRune r = ''i'' \<or> lowerRune r = ''k'' \<or> (lowerRune r = r \<and> length r \<noteq> 1)"
  by (simp add: lowerRune_def)

lemma lowerRune_no_slash: "CHR ''/'' \<notin> set r \<Longrightarrow> CHR ''/'' \<notin> set (lowerRune r)"
  using lowerRune_cases[of r] by (elim disjE) auto

lemma lowerRune_nonempty: "r \<noteq> [] \<Longrightarrow> lowerRune r \<noteq> []"
  using lowerRune_cases[of r] by (elim disjE) auto

lemma mapLower_no_slash: "CHR ''/'' \<notin> set s \<Longrightarrow> CHR ''/'' \<notin> set (mapLower s)"
proof (induction s rule: mapLower.induct)
  case 1
  show ?case by simp
next
  case (2 c cs)
  show ?case
  proof (cases "isAscii c")
    case True
    moreover from "2.prems" have "asciiLower c \<noteq> CHR ''/''" by (auto simp: asciiLower_slash)
    ultimately show ?thesis using 2 by auto
  next
    case False
    let ?w = "runeWidth (c # cs)"
    have "set (take ?w (c # cs)) \<subseteq> set (c # cs)" by (rule set_take_subset)
    with "2.prems" have "CHR ''/'' \<notin> set (take ?w (c # cs))" by blast
    then have a: "CHR ''/'' \<notin> set (lowerRune (take ?w (c # cs)))" by (rule lowerRune_no_slash)
    have "set (drop (?w - 1) cs) \<subseteq> set cs" by (rule set_drop_subset)
    with "2.prems" have "CHR ''/'' \<notin> set (drop (?w - 1) cs)" by auto
    with 2 False have "CHR ''/'' \<notin> set (mapLower (drop (?w - 1) cs))" by simp
    with a False show ?thesis by (simp del: runeWidth.simps)
  qed
qed

lemma mapLower_nonempty: "s \<noteq> [] \<Longrightarrow> mapLower s \<noteq> []"
proof (cases s)
  case Nil
  assume "s \<noteq> []"
  with Nil show ?thesis by simp
next
  case (Cons c cs)
  have "take (runeWidth (c # cs)) (c # cs) \<noteq> []" using runeWidth_le[of c cs] by auto
  then have "lowerRune (take (runeWidth (c # cs)) (c # cs)) \<noteq> []" by (rule lowerRune_nonempty)
  with Cons show ?thesis by (simp del: runeWidth.simps)
qed

lemma mapLower_ascii: "list_all isAscii s \<Longrightarrow> mapLower s = map asciiLower s"
  by (induction s) (simp_all del: runeWidth.simps)

lemma strings_ToLower_mapLower: "strings_ToLower s = mapLower s"
  by (simp add: strings_ToLower_def mapLower_ascii)

lemma mapLower_append_ascii:
  assumes c: "isAscii c"
  shows "mapLower (a @ c # b) = mapLower a @ asciiLower c # mapLower b"
proof (induction a rule: length_induct)
  case (1 a)
  show ?case
  proof (cases a)
    case Nil
    with c show ?thesis by simp
  next
    case (Cons x xs)
    show ?thesis
    proof (cases "isAscii x")
      case True
      have "length xs < length a" using Cons by simp
      with 1 have "mapLower (xs @ c # b) = mapLower xs @ asciiLower c # mapLower b" by blast
      with True Cons show ?thesis by simp
    next
      case False
      let ?w = "runeWidth (x # xs)"
      have w: "runeWidth (x # xs @ c # b) = ?w" using c by (rule runeWidth_append_ascii)
      have le: "?w \<le> length (x # xs)" "1 \<le> ?w" using runeWidth_le[of x xs] by simp_all
      have t: "take ?w (x # xs @ c # b) = take ?w (x # xs)"
        using le(1) take_append[of ?w "x # xs" "c # b"] by simp
      have d: "drop (?w - 1) (xs @ c # b) = drop (?w - 1) xs @ c # b" using le by simp
      have "length (drop (?w - 1) xs) < length a" using Cons by simp
      with 1 have ih: "mapLower (drop (?w - 1) xs @ c # b) =
          mapLower (drop (?w - 1) xs) @ asciiLower c # mapLower b" by blast
      have "mapLower (x # xs @ c # b) =
              lowerRune (take ?w (x # xs)) @ mapLower (drop (?w - 1) xs @ c # b)"
        using False by (simp only: mapLower.simps w t d if_False)
      also have "\<dots> = (lowerRune (take ?w (x # xs)) @ mapLower (drop (?w - 1) xs)) @ asciiLower c # mapLower b"
        by (simp only: ih append_assoc)
      also have "lowerRune (take ?w (x # xs)) @ mapLower (drop (?w - 1) xs) = mapLower (x # xs)"
        using False by (simp only: mapLower.simps if_False)
      finally show ?thesis using Cons by simp
    qed
  qed
qed

lemma filepath_Base_last:
  assumes ne: "S \<noteq> []" and ns: "CHR ''/'' \<notin> set S"
  shows "filepath_Base (A @ CHR ''/'' # S) = S"
proof -
  let ?path = "A @ CHR ''/'' # S"
  have r: "rev ?path = rev S @ CHR ''/'' # rev A" by simp
  have "last S \<in> set S" using ne by (rule last_in_set)
  with ns have "last S \<noteq> CHR ''/''" by auto
  then have "hd (rev S) \<noteq> CHR ''/''" using ne by (simp add: hd_rev)
  moreover have "rev S \<noteq> []" using ne by simp
  ultimately have d: "dropWhile (\<lambda>c. c = CHR ''/'') (rev ?path) = rev ?path"
    unfolding r by (cases "rev S") auto
  have t: "takeWhile (\<lambda>c. c \<noteq> CHR ''/'') (rev ?path) = rev S"
    unfolding r using ns by (subst takeWhile_append2) auto
  have "filepath_Base ?path = (let p = rev (dropWhile (\<lambda>c. c = CHR ''/'') (rev ?path));
               q = rev (takeWhile (\<lambda>c. c \<noteq> CHR ''/'') (rev p))
           in if q = [] then ''/'' else q)"
    by (simp only: filepath_Base_def) simp
  also have "\<dots> = S" using ne by (simp only: d Let_def rev_rev_ident t) simp
  finally show ?thesis .
qed

lemma sanitizeStem_last_segment:
  assumes ne: "seg \<noteq> []" and ns: "CHR ''/'' \<notin> set seg"
  shows "sanitizeStem (d @ CHR ''/'' # seg) = sanitizeStem seg"
proof -
  have sl: "isAscii (CHR ''/'')" by (simp add: isAscii_def byte_def)
  have S: "mapLower seg \<noteq> []" "CHR ''/'' \<notin> set (mapLower seg)"
    using ne ns mapLower_nonempty mapLower_no_slash by auto
  have "getFilename (strings_ToLower (d @ CHR ''/'' # seg)) =
        filepath_Base (mapLower d @ CHR ''/'' # mapLower seg)"
    using mapLower_append_ascii[OF sl, of d seg]
    by (simp add: getFilename_def strings_ToLower_mapLower asciiLower_def isUpper_def byte_def)
  also have "\<dots> = mapLower seg" using S by (rule filepath_Base_last)
  also have "\<dots> = getFilename (strings_ToLower seg)"
    using S by (simp add: getFilename_def strings_ToLower_mapLower filepath_Base_id)
  finally show ?thesis by (simp add: sanitizeStem_def)
qed

lemma urlToFilename_last_segment:
  "seg \<noteq> [] \<Longrightarrow> CHR ''/'' \<notin> set seg \<Longrightarrow> urlToFilename (d @ CHR ''/'' # seg) = urlToFilename seg"
  by (simp add: urlToFilename_stem sanitizeStem_last_segment)
lemma downloadPDF_succeeds:
  assumes get: "httpGet e finalURL = Got resp"
    and ok: "statusCode resp = 200"
    and ct: "strings_Contains (contentType resp) ''binary/octet-stream'' \<or>
             strings_Contains (contentType resp) ''application/pdf''"
    and rd: "\<not> readError resp"
    and bd: "body resp \<noteq> []"
    and absent: "fs w (targetPath outputDir finalURL) = None"
    and cr: "\<not> ioFails e OpCreate (targetPath outputDir finalURL)"
    and wr: "\<not> ioFails e OpWrite (targetPath outputDir finalURL)"
  shows "fst (downloadPDF e finalURL outputDir w) \<and>
         fs (snd (downloadPDF e finalURL outputDir w)) =
           (fs w)(targetPath outputDir finalURL \<mapsto> File (body resp)) \<and>
         requests (snd (downloadPDF e finalURL outputDir w)) = requests w @ [finalURL]"
proof -
  let ?p = "targetPath outputDir finalURL"
  have p: "filepath_Join [outputDir, strings_ToLower (urlToFilename finalURL)] = ?p"
    by (simp add: targetPath_def urlToFilename_lower)
  have ne: "\<not> fileExists (fs w) ?p" using absent by (simp add: fileExists_def)
  have c: "os_Create e (fs w) ?p = Some ((fs w)(?p \<mapsto> File []))"
    using absent cr by (simp add: os_Create_def)
  show ?thesis
    using get ok ct rd bd ne c wr
    by (auto simp: downloadPDF_def p Let_def logPrint_def)
qed

text \<open>
  Claim C4 (amended). Two URLs that differ only in what precedes the last slash, with
  the same non-empty last segment, have the same target filename. When the first
  download succeeds (the request is answered with status 200, an accepted content type
  and a body that is read without error and is not empty, nothing is at the target path,
  and the file can be created and written), processing both results in exactly one file
  written: the first call creates the file with the body of its response, the later call
  is skipped because the file exists, sends no request and changes nothing.
\<close>

theorem same_segment_one_file:
  assumes seg: "seg \<noteq> []" "CHR ''/'' \<notin> set seg"
    and u1: "u1 = d1 @ ''/'' @ seg" and u2: "u2 = d2 @ ''/'' @ seg"
    and target: "target = filepath_Join [outputDir, urlToFilename u1]"
    and r1: "r1 = downloadPDF e u1 outputDir w"
    and r2: "r2 = downloadPDF e u2 outputDir (snd r1)"
    and get: "httpGet e u1 = Got resp"
    and ok: "statusCode resp = 200"
    and ct: "strings_Contains (contentType resp) ''binary/octet-stream'' \<or>
             strings_Contains (contentType resp) ''application/pdf''"
    and rd: "\<not> readError resp"
    and bd: "body resp \<noteq> []"
    and absent: "fs w target = None"
    and cr: "\<not> ioFails e OpCreate target"
    and wr: "\<not> ioFails e OpWrite target"
  shows "urlToFilename u1 = urlToFilename u2 \<and>
         fst r1 \<and> \<not> fst r2 \<and>
         fs (snd r1) = (fs w)(target \<mapsto> File (body resp)) \<and>
         fs (snd r2) = (fs w)(target \<mapsto> File (body resp)) \<and>
         requests (snd r2) = requests w @ [u1]"
proof -
  have same: "urlToFilename u1 = urlToFilename u2"
    using seg u1 u2 by (simp add: urlToFilename_last_segment)
  have t1: "targetPath outputDir u1 = target" by (simp add: targetPath_def target)
  have t2: "targetPath outputDir u2 = target" using same by (simp add: targetPath_def target)
  have first: "fst r1 \<and> fs (snd r1) = (fs w)(target \<mapsto> File (body resp)) \<and>
               requests (snd r1) = requests w @ [u1]"
    unfolding r1
    using downloadPDF_succeeds[OF get ok ct rd bd, of w outputDir] absent cr wr
    by (simp only: t1) simp
  then have "fs (snd r1) target = Some (File (body resp))" by simp
  then have "fileExists (fs (snd r1)) (targetPath outputDir u2)"
    by (simp add: fileExists_def t2)
  then have "r2 = (False, logPrint (LogFileExists (targetPath outputDir u2)) (snd r1))"
    unfolding r2 by (rule downloadPDF_skip)
  then have second: "\<not> fst r2 \<and> fs (snd r2) = fs (snd r1) \<and> requests (snd r2) = requests (snd r1)"
    by (simp add: logPrint_def)
  from same first second show ?thesis by simp
qed

theorem same_segment_one_file_witness:
  "''doc.pdf'' \<noteq> [] \<and> CHR ''/'' \<notin> set ''doc.pdf'' \<and>
   httpGet (serverEnv okResponse) ''https://www.nclonline.com/a/doc.pdf'' = Got okResponse \<and>
   statusCode okResponse = 200 \<and>
   strings_Contains (contentType okResponse) ''application/pdf'' \<and>
   \<not> readError okResponse \<and> body okResponse \<noteq> [] \<and>
   filepath_Join [''PDFs/'', urlToFilename ''https://www.nclonline.com/a/doc.pdf''] = ''PDFs/doc.pdf'' \<and>
   fs emptyWorld ''PDFs/doc.pdf'' = None \<and>
   \<not> ioFails (serverEnv okResponse) OpCreate ''PDFs/doc.pdf'' \<and>
   \<not> ioFails (serverEnv okResponse) OpWrite ''PDFs/doc.pdf'' \<and>
   urlToFilename ''https://www.nclonline.com/a/doc.pdf'' = urlToFilename ''https://www.nclonline.com/b/doc.pdf'' \<and>
   fst (downloadPDF (serverEnv okResponse) ''https://www.nclonline.com/a/doc.pdf'' ''PDFs/'' emptyWorld) \<and>
   \<not> fst (downloadPDF (serverEnv okResponse) ''https://www.nclonline.com/b/doc.pdf'' ''PDFs/''
           (snd (downloadPDF (serverEnv okResponse) ''https://www.nclonline.com/a/doc.pdf'' ''PDFs/'' emptyWorld))) \<and>
   fs (snd (downloadPDF (serverEnv okResponse) ''https://www.nclonline.com/b/doc.pdf'' ''PDFs/''
           (snd (downloadPDF (serverEnv okResponse) ''https://www.nclonline.com/a/doc.pdf'' ''PDFs/'' emptyWorld))))
     = [''PDFs/doc.pdf'' \<mapsto> File ''%PDF-1.4''] \<and>
   requests (snd (downloadPDF (serverEnv okResponse) ''https://www.nclonline.com/b/doc.pdf'' ''PDFs/''
           (snd (downloadPDF (serverEnv okResponse) ''https://www.nclonline.com/a/doc.pdf'' ''PDFs/'' emptyWorld))))
     = [''https://www.nclonline.com/a/doc.pdf'']"
proof -
  let ?e = "serverEnv okResponse"
  have s: "''doc.pdf'' \<noteq> []" "CHR ''/'' \<notin> set ''doc.pdf''" by simp_all
  have u1: "''https://www.nclonline.com/a/doc.pdf'' = ''https://www.nclonline.com/a'' @ ''/'' @ ''doc.pdf''" by simp
  have u2: "''https://www.nclonline.com/b/doc.pdf'' = ''https://www.nclonline.com/b'' @ ''/'' @ ''doc.pdf''" by simp
  have t: "''PDFs/doc.pdf'' = filepath_Join [''PDFs/'', urlToFilename ''https://www.nclonline.com/a/doc.pdf'']"
    by code_simp
  have g: "httpGet ?e ''https://www.nclonline.com/a/doc.pdf'' = Got okResponse" by (simp add: serverEnv_def)
  have ok: "statusCode okResponse = 200" by (simp add: okResponse_def)
  have c: "strings_Contains (contentType okResponse) ''application/pdf''" by code_simp
  then have ct: "strings_Contains (contentType okResponse) ''binary/octet-stream'' \<or>
                 strings_Contains (contentType okResponse) ''application/pdf''" by simp
  have rd: "\<not> readError okResponse" by (simp add: okResponse_def)
  have b: "body okResponse = ''%PDF-1.4''" by (simp add: okResponse_def)
  then have bd: "body okResponse \<noteq> []" by simp
  have ab: "fs emptyWorld ''PDFs/doc.pdf'' = None" by (simp add: emptyWorld_def)
  have cr: "\<not> ioFails ?e OpCreate ''PDFs/doc.pdf''" by (simp add: serverEnv_def)
  have wr: "\<not> ioFails ?e OpWrite ''PDFs/doc.pdf''" by (simp add: serverEnv_def)
  have w: "fs emptyWorld = Map.empty" "requests emptyWorld = []" by (simp_all add: emptyWorld_def)
  from same_segment_one_file[OF s u1 u2 t refl refl g ok ct rd bd ab cr wr]
    s g ok c rd b t ab cr wr w
  show ?thesis by simp
qed

text \<open>
  Claim C4 as stated promises one file for every such pair. When both requests fail,
  both URLs are tried and no file is written. And when the shared last segment is
  empty (both URLs end in a slash), the filename comes from the segment before it, so
  the two filenames differ.
\<close>

theorem same_segment_no_file:
  "fs (snd (downloadPDF offlineEnv ''https://www.nclonline.com/b/doc.pdf'' ''PDFs/''
        (snd (downloadPDF offlineEnv ''https://www.nclonline.com/a/doc.pdf'' ''PDFs/'' emptyWorld))))
     (filepath_Join [''PDFs/'', urlToFilename ''https://www.nclonline.com/a/doc.pdf'']) = None \<and>
   requests (snd (downloadPDF offlineEnv ''https://www.nclonline.com/b/doc.pdf'' ''PDFs/''
        (snd (downloadPDF offlineEnv ''https://www.nclonline.com/a/doc.pdf'' ''PDFs/'' emptyWorld))))
     = [''https://www.nclonline.com/a/doc.pdf'', ''https://www.nclonline.com/b/doc.pdf''] \<and>
   urlToFilename (''https://www.nclonline.com/a'' @ ''/'' @ []) \<noteq>
     urlToFilename (''https://www.nclonline.com/b'' @ ''/'' @ [])"
  by code_simp
section \<open>Normalising the candidates\<close>

text \<open>
  Claim C8. The second loop of main hands to downloadPDF, in order, each candidate that
  has a host as it is, and each candidate without a host with the fixed origin
  https://www.nclonline.com put in front by concatenation; a URL that is not valid
  after this step is left out.
\<close>

theorem downloadLoop_normalizes:
  "downloadLoop e outputDir candidates w =
     foldl (\<lambda>w u. snd (downloadPDF e u outputDir w)) w
       (filter (isUrlValid e)
          (map (\<lambda>u. if hasDomain e u then u else ''https://www.nclonline.com'' @ u) candidates))"
proof (induction candidates arbitrary: w)
  case Nil
  show ?case by simp
next
  case (Cons u us)
  show ?case by (simp add: Cons.IH Let_def)
qed

theorem downloadLoop_normalizes_witness:
  "\<not> hasDomain (serverEnv okResponse) ''/products/view/X'' \<and>
   hasDomain (serverEnv okResponse) ''https://example.org/Y.pdf'' \<and>
   downloadLoop (serverEnv okResponse) ''PDFs/''
      [''/products/view/X'', ''https://example.org/Y.pdf''] emptyWorld =
     snd (downloadPDF (serverEnv okResponse) ''https://example.org/Y.pdf'' ''PDFs/''
       (snd (downloadPDF (serverEnv okResponse) ''https://www.nclonline.com/products/view/X''
          ''PDFs/'' emptyWorld)))"
proof -
  let ?e = "serverEnv okResponse"
  have a: "\<not> hasDomain ?e ''/products/view/X''" by code_simp
  have b: "hasDomain ?e ''https://example.org/Y.pdf''" by code_simp
  have v: "isUrlValid ?e ''https://www.nclonline.com/products/view/X''"
    "isUrlValid ?e ''https://example.org/Y.pdf''" by code_simp+
  from downloadLoop_normalizes[of ?e "''PDFs/''" "[''/products/view/X'', ''https://example.org/Y.pdf'']" emptyWorld]
    a b v
  show ?thesis by simp
qed
section \<open>A failed page fetch\<close>

lemma getDataFromURL_nil_response:
  "httpGet e uri = Failed None \<Longrightarrow>
   getDataFromURL e uri w =
     Panics (logPrint LogError ((logPrint (LogScraping uri) w)\<lparr>requests := requests w @ [uri]\<rparr>))"
  by (simp add: getDataFromURL_def Let_def logPrint_def)

lemma fetchLoop_panics:
  "\<exists>u\<in>set seeds. httpGet e u = Failed None \<Longrightarrow> \<exists>w'. fetchLoop e localFile seeds w = Panics w'"
proof (induction seeds arbitrary: w)
  case Nil
  then show ?case by simp
next
  case (Cons u us)
  show ?case
  proof (cases "getDataFromURL e u w")
    case (Panics w')
    then show ?thesis by simp
  next
    case (Returns page w')
    then have "httpGet e u \<noteq> Failed None"
      by (auto simp: getDataFromURL_nil_response)
    with Cons.prems have "\<exists>u\<in>set us. httpGet e u = Failed None" by auto
    from Cons.IH[OF this] Returns show ?thesis by simp
  qed
qed

lemma mainWith_panics:
  assumes "\<And>w. \<exists>w'. fetchLoop e ''nclonline.html'' seeds w = Panics w'"
  shows "\<exists>w'. mainWith e seeds w = Panics w'"
proof -
  let ?w1 = "if \<not> directoryExists (fs w) ''PDFs/'' then createDirectory e ''PDFs/'' w else w"
  let ?w2 = "if fileExists (fs ?w1) ''nclonline.html'' then removeFile e ''nclonline.html'' ?w1 else ?w1"
  from assms[of ?w2] obtain w' where "fetchLoop e ''nclonline.html'' seeds ?w2 = Panics w'" ..
  then have "mainWith e seeds w = Panics w'" by (simp add: mainWith_def Let_def)
  then show ?thesis ..
qed

text \<open>
  Claim C2 fails on the code. When the request for a seed page fails with a nil
  response (connection error, timeout), getDataFromURL logs the error and then reads
  response.Body: the program panics. The loop over the seed pages stops there and main
  ends without fetching the remaining pages or downloading anything.
\<close>

theorem failed_fetch_halts_run:
  assumes "httpGet e uri = Failed None"
  shows "(\<exists>w'. getDataFromURL e uri w = Panics w') \<and>
         (\<exists>w'. fetchLoop e localFile (before @ uri # rest) w = Panics w') \<and>
         (\<exists>w'. mainWith e (before @ uri # rest) w = Panics w')"
proof -
  have a: "\<exists>w'. getDataFromURL e uri w = Panics w'"
    using assms by (simp add: getDataFromURL_nil_response)
  have ex: "\<exists>u\<in>set (before @ uri # rest). httpGet e u = Failed None" using assms by auto
  have b: "\<And>w. \<exists>w'. fetchLoop e localFile (before @ uri # rest) w = Panics w'"
    using ex by (rule fetchLoop_panics)
  have "\<And>w. \<exists>w'. fetchLoop e ''nclonline.html'' (before @ uri # rest) w = Panics w'"
    using ex by (rule fetchLoop_panics)
  then have c: "\<exists>w'. mainWith e (before @ uri # rest) w = Panics w'"
    by (rule mainWith_panics)
  from a b c show ?thesis by blast
qed

theorem failed_fetch_halts_run_witness:
  "httpGet offlineEnv ''https://www.nclonline.com/products/sds_alpha'' = Failed None \<and>
   (\<exists>w'. mainWith offlineEnv
      [''https://www.nclonline.com/products/sds_alpha'',
       ''https://www.nclonline.com/products/view/15_COCONUT_OIL''] emptyWorld = Panics w') \<and>
   (case fetchLoop offlineEnv ''nclonline.html''
      [''https://www.nclonline.com/products/sds_alpha'',
       ''https://www.nclonline.com/products/view/15_COCONUT_OIL''] emptyWorld of
      Panics w' \<Rightarrow> requests w' = [''https://www.nclonline.com/products/sds_alpha'']
    | Returns _ _ \<Rightarrow> False)"
proof -
  have h: "httpGet offlineEnv ''https://www.nclonline.com/products/sds_alpha'' = Failed None"
    by (simp add: offlineEnv_def)
  have c: "(case fetchLoop offlineEnv ''nclonline.html''
      [''https://www.nclonline.com/products/sds_alpha'',
       ''https://www.nclonline.com/products/view/15_COCONUT_OIL''] emptyWorld of
      Panics w' \<Rightarrow> requests w' = [''https://www.nclonline.com/products/sds_alpha'']
    | Returns _ _ \<Rightarrow> False)"
    by code_simp
  from failed_fetch_halts_run[OF h, where localFile = "''nclonline.html''" and before = "[]"
      and rest = "[''https://www.nclonline.com/products/view/15_COCONUT_OIL'']" and w = emptyWorld] h c
  show ?thesis by simp
qed

end
